theory Spec2Isabelle
  imports Main "HOL-Library.Word"
begin

section \<open>Synchronisation primitives of kern/thread/synch.c\<close>

text \<open>
  The file implements counting semaphores, reentrant locks and condition variables on
  top of the scheduler's \<^verbatim>\<open>thread_sleep\<close> / \<^verbatim>\<open>thread_wakeup\<close>.
  Every primitive runs between \<^verbatim>\<open>splhigh()\<close> and \<^verbatim>\<open>splx(spl)\<close> on a
  single CPU, so the code between two suspension points runs without interleaving.  The
  model therefore has one transition for each such segment: a call runs either to its
  return or to its next \<^verbatim>\<open>thread_sleep\<close>, and a woken thread resumes at the
  statement after that \<^verbatim>\<open>thread_sleep\<close>.  The assertions that precede
  \<^verbatim>\<open>splhigh()\<close> read only the arguments, the in-interrupt flag and whether the caller
  owns the lock, which no other thread changes, so they belong to the first segment.  The
  interrupt priority level itself is not part of the state.  \<^verbatim>\<open>sem_destroy\<close>,
  \<^verbatim>\<open>lock_destroy\<close>, \<^verbatim>\<open>cv_create\<close> and \<^verbatim>\<open>cv_destroy\<close> take no part in
  the properties proved below and are left out.
\<close>

subsection \<open>Data model\<close>

text \<open>
  Pointers are addresses; the null pointer is address 0.  A thread is identified by the
  address of its \<^verbatim>\<open>struct thread\<close>, as \<^verbatim>\<open>curthread\<close> is in the source.
\<close>

type_synonym addr = nat

definition NULL :: addr where
  "NULL = 0"

text \<open>
  A C \<^verbatim>\<open>int\<close> on the 32-bit MIPS target of the kernel: a 32-bit word in two's
  complement.  \<open>sint\<close> reads its value; \<open>+\<close> and \<open>-\<close> wrap around as the
  additions of the machine do, so that one more than \<open>INT_MAX\<close> is the least value,
  \<open>- 2147483648\<close>.  The code tests no counter before it adds to it.
\<close>

type_synonym c_int = "32 word"

definition INT_MAX :: c_int where
  "INT_MAX = 2147483647"

text \<open>
  Modelled from the spec: the declaration of \<^verbatim>\<open>struct semaphore\<close> (synch.h) is not
  among the sources.  The fields are the ones synch.c reads and writes: \<^verbatim>\<open>name\<close> and
  \<^verbatim>\<open>count\<close>.  \<^verbatim>\<open>sem_create\<close> assigns the count from its \<^verbatim>\<open>int\<close> parameter,
  and the count is a C \<^verbatim>\<open>int\<close> here.
\<close>

record semaphore =
  sem_name :: string
  count :: c_int

text \<open>
  Modelled from the spec: the declaration of \<^verbatim>\<open>struct lock\<close> (synch.h) is not among
  the sources.  The fields are the ones synch.c reads and writes: \<^verbatim>\<open>name\<close>,
  \<^verbatim>\<open>status\<close> (1 when the lock is held, 0 when it is free), the owner
  \<^verbatim>\<open>curthread_with_lock\<close> (the null pointer when there is none) and the hold count
  \<^verbatim>\<open>lock_counter\<close>, a C \<^verbatim>\<open>int\<close> like the count of a semaphore.  The status is
  only assigned 0 or 1 and compared with 1.
\<close>

record lock =
  lock_name :: string
  status :: int
  curthread_with_lock :: addr
  lock_counter :: c_int

text \<open>
  Modelled from the spec: the declaration of \<^verbatim>\<open>struct cv\<close> (synch.h) is not among
  the sources.  The fields are \<^verbatim>\<open>name\<close> and the wait queue \<^verbatim>\<open>q\<close>; the queue
  that \<^verbatim>\<open>cv->q\<close> points to is the list of the queued thread pointers, head first.
\<close>

record cv =
  cv_name :: string
  q :: "addr list"

text \<open>
  Where a suspended thread continues when it is scheduled again: inside the loop of
  \<^verbatim>\<open>P\<close>, inside the loop of \<^verbatim>\<open>lock_acquire\<close>, or in \<^verbatim>\<open>cv_wait\<close> just
  before its \<^verbatim>\<open>lock_acquire(lock)\<close>.  The address is the function's argument, which
  lives on the suspended thread's stack.
\<close>

datatype cont = In_P addr | In_lock_acquire addr | In_cv_wait addr

text \<open>
  Modelled from the spec: the scheduler (thread.c) is not among the sources.  The kernel
  state holds the globals \<^verbatim>\<open>curthread\<close> and \<^verbatim>\<open>in_interrupt\<close> that synch.c reads,
  the semaphores, locks and condition variables that live at each address, and the
  scheduler's books: the sleeping threads, each with the address it sleeps on; the threads
  that have been made runnable again, in the order in which they were woken; and for each
  suspended thread the point where it continues.
\<close>

record kernel =
  curthread :: addr
  in_interrupt :: int
  sems :: "addr \<rightharpoonup> semaphore"
  locks :: "addr \<rightharpoonup> lock"
  cvs :: "addr \<rightharpoonup> cv"
  sleepers :: "(addr \<times> addr) list"
  runqueue :: "addr list"
  saved :: "addr \<rightharpoonup> cont"

text \<open>
  What one segment of a call does: it returns a value, it puts the calling thread to sleep,
  it stops the kernel on a failed \<^verbatim>\<open>assert\<close>, or it dereferences a pointer behind
  which there is no object of the expected type.
\<close>

datatype 'a result = Returned 'a kernel | Slept kernel | Panic | Fault

subsection \<open>The scheduler interface\<close>

text \<open>
  Modelled from the spec: \<^verbatim>\<open>thread_sleep(addr)\<close> suspends the calling thread until
  it is woken on \<^verbatim>\<open>addr\<close>; the second argument is the point where the caller
  continues.
\<close>

definition thread_sleep :: "addr \<Rightarrow> cont \<Rightarrow> kernel \<Rightarrow> kernel" where
  "thread_sleep a c k =
     k\<lparr>sleepers := sleepers k @ [(curthread k, a)],
       saved := (saved k)(curthread k \<mapsto> c)\<rparr>"

text \<open>The threads that sleep on an address, in the order in which they went to sleep.\<close>

definition sleeping_on :: "addr \<Rightarrow> kernel \<Rightarrow> addr list" where
  "sleeping_on a k = map fst (filter (\<lambda>(t, c). c = a) (sleepers k))"

text \<open>
  Modelled from the spec: \<^verbatim>\<open>thread_wakeup(addr)\<close> marks every thread sleeping on
  \<^verbatim>\<open>addr\<close> runnable again, and does nothing if there is none.
\<close>

definition thread_wakeup :: "addr \<Rightarrow> kernel \<Rightarrow> kernel" where
  "thread_wakeup a k =
     k\<lparr>sleepers := filter (\<lambda>(t, c). c \<noteq> a) (sleepers k),
       runqueue := runqueue k @ sleeping_on a k\<rparr>"

subsection \<open>Semaphore\<close>

text \<open>
  \<^verbatim>\<open>sem_create(namearg, initial_count)\<close>.  The first two arguments are what the
  allocator answers: the pointer \<^verbatim>\<open>kmalloc\<close> returns, and whether
  \<^verbatim>\<open>kstrdup\<close> succeeds.
\<close>

definition sem_create :: "addr \<Rightarrow> bool \<Rightarrow> string \<Rightarrow> c_int \<Rightarrow> kernel \<Rightarrow> addr result" where
  "sem_create sem dup_ok namearg initial_count k =
     (if \<not> sint initial_count \<ge> 0 then Panic
      else if sem = NULL then Returned NULL k
      else if \<not> dup_ok then Returned NULL k
      else Returned sem
             (k\<lparr>sems := (sems k)(sem \<mapsto> \<lparr>sem_name = namearg, count = initial_count\<rparr>)\<rparr>))"

text \<open>The loop of \<^verbatim>\<open>P\<close> and the statements after it; a woken thread re-enters here.\<close>

definition P_loop :: "addr \<Rightarrow> kernel \<Rightarrow> unit result" where
  "P_loop sem k =
     (case sems k sem of
        None \<Rightarrow> Fault
      | Some s \<Rightarrow>
          if count s = 0 then Slept (thread_sleep sem (In_P sem) k)
          else if \<not> sint (count s) > 0 then Panic
          else Returned () (k\<lparr>sems := (sems k)(sem \<mapsto> s\<lparr>count := count s - 1\<rparr>)\<rparr>))"

definition P :: "addr \<Rightarrow> kernel \<Rightarrow> unit result" where
  "P sem k =
     (if sem = NULL then Panic
      else if \<not> in_interrupt k = 0 then Panic
      else P_loop sem k)"

definition V :: "addr \<Rightarrow> kernel \<Rightarrow> unit result" where
  "V sem k =
     (if sem = NULL then Panic
      else case sems k sem of
        None \<Rightarrow> Fault
      | Some s \<Rightarrow>
          let s' = s\<lparr>count := count s + 1\<rparr> in
          if \<not> sint (count s') > 0 then Panic
          else Returned () (thread_wakeup sem (k\<lparr>sems := (sems k)(sem \<mapsto> s')\<rparr>)))"

subsection \<open>Lock\<close>

definition lock_create :: "addr \<Rightarrow> bool \<Rightarrow> string \<Rightarrow> kernel \<Rightarrow> addr result" where
  "lock_create lock dup_ok name k =
     (if lock = NULL then Returned NULL k
      else if \<not> dup_ok then Returned NULL k
      else Returned lock
             (k\<lparr>locks := (locks k)(lock \<mapsto>
                  \<lparr>lock_name = name, status = 0, curthread_with_lock = NULL,
                   lock_counter = 0\<rparr>)\<rparr>))"

text \<open>The loop of \<^verbatim>\<open>lock_acquire\<close> and the statements after it.\<close>

definition lock_acquire_loop :: "addr \<Rightarrow> kernel \<Rightarrow> unit result" where
  "lock_acquire_loop lock k =
     (case locks k lock of
        None \<Rightarrow> Fault
      | Some l \<Rightarrow>
          if status l = 1 then Slept (thread_sleep lock (In_lock_acquire lock) k)
          else Returned ()
                 (k\<lparr>locks := (locks k)(lock \<mapsto>
                      l\<lparr>curthread_with_lock := curthread k,
                        lock_counter := lock_counter l + 1,
                        status := 1\<rparr>)\<rparr>))"

definition lock_acquire :: "addr \<Rightarrow> kernel \<Rightarrow> unit result" where
  "lock_acquire lock k =
     (if lock = NULL then Panic
      else case locks k lock of
        None \<Rightarrow> Fault
      | Some l \<Rightarrow>
          if curthread k = curthread_with_lock l
          then Returned ()
                 (k\<lparr>locks := (locks k)(lock \<mapsto> l\<lparr>lock_counter := lock_counter l + 1\<rparr>)\<rparr>)
          else lock_acquire_loop lock k)"

definition lock_release :: "addr \<Rightarrow> kernel \<Rightarrow> unit result" where
  "lock_release lock k =
     (if lock = NULL then Panic
      else case locks k lock of
        None \<Rightarrow> Fault
      | Some l \<Rightarrow>
          if curthread k \<noteq> curthread_with_lock l then Returned () k
          else
            let l' = l\<lparr>lock_counter := lock_counter l - 1\<rparr> in
            if lock_counter l' = 0
            then Returned ()
                   (thread_wakeup lock
                      (k\<lparr>locks := (locks k)(lock \<mapsto>
                           l'\<lparr>curthread_with_lock := NULL, status := 0\<rparr>)\<rparr>))
            else Returned () (k\<lparr>locks := (locks k)(lock \<mapsto> l')\<rparr>))"

definition lock_do_i_hold :: "addr \<Rightarrow> kernel \<Rightarrow> int result" where
  "lock_do_i_hold lock k =
     (case locks k lock of
        None \<Rightarrow> Fault
      | Some l \<Rightarrow>
          if curthread_with_lock l = curthread k then Returned 1 k else Returned 0 k)"

subsection \<open>Condition variable\<close>

text \<open>
  Sequencing of two segments of one call: the second runs when the first has returned.
\<close>

fun then_do :: "'a result \<Rightarrow> ('a \<Rightarrow> kernel \<Rightarrow> 'b result) \<Rightarrow> 'b result" where
  "then_do (Returned x k) f = f x k"
| "then_do (Slept k) f = Slept k"
| "then_do Panic f = Panic"
| "then_do Fault f = Fault"

text \<open>
  Modelled from the spec: the queue (queue.c) is not among the sources; the spec gives it
  as an ordered queue with \<^verbatim>\<open>isEmpty\<close>, \<^verbatim>\<open>pushTail(item)\<close> and
  \<^verbatim>\<open>popHead() -> item\<close>.  \<^verbatim>\<open>q_addtail\<close> (pushTail) returns 0 when the item has
  been appended at the tail and an error code when the queue could not grow; that code is
  the first argument here (0 for none).
\<close>

definition q_addtail :: "int \<Rightarrow> addr list \<Rightarrow> addr \<Rightarrow> int \<times> addr list" where
  "q_addtail r qu x = (if r = 0 then (0, qu @ [x]) else (r, qu))"

text \<open>
  Modelled from the spec: \<^verbatim>\<open>q_empty\<close> (isEmpty) is not 0 exactly when the queue has
  no item.
\<close>

definition q_empty :: "addr list \<Rightarrow> int" where
  "q_empty qu = (if qu = [] then 1 else 0)"

text \<open>
  Modelled from the spec: \<^verbatim>\<open>q_remhead\<close> (popHead) removes the head of the queue and
  returns it; there is no head to return on an empty queue.
\<close>

fun q_remhead :: "addr list \<Rightarrow> (addr \<times> addr list) option" where
  "q_remhead [] = None"
| "q_remhead (x # xs) = Some (x, xs)"

definition cv_wait :: "int \<Rightarrow> addr \<Rightarrow> addr \<Rightarrow> kernel \<Rightarrow> unit result" where
  "cv_wait r cv lock k =
     then_do (lock_do_i_hold lock k) (\<lambda>held k0.
       if held = 0 then Panic
       else case cvs k0 cv of
         None \<Rightarrow> Fault
       | Some c \<Rightarrow>
           let (result, qu) = q_addtail r (q c) (curthread k0);
               k1 = k0\<lparr>cvs := (cvs k0)(cv \<mapsto> c\<lparr>q := qu\<rparr>)\<rparr>
           in if \<not> result = 0 then Panic
              else then_do (lock_release lock k1) (\<lambda>u k2.
                     Slept (thread_sleep (curthread k2) (In_cv_wait lock) k2)))"

definition cv_signal :: "addr \<Rightarrow> addr \<Rightarrow> kernel \<Rightarrow> unit result" where
  "cv_signal cv lock k =
     then_do (lock_do_i_hold lock k) (\<lambda>held k0.
       if held = 0 then Panic
       else case cvs k0 cv of
         None \<Rightarrow> Fault
       | Some c \<Rightarrow>
           let check_empty_q = q_empty (q c)
           in if check_empty_q = 0
              then (case q_remhead (q c) of
                      None \<Rightarrow> Panic
                    | Some (t, qu) \<Rightarrow>
                        Returned ()
                          (thread_wakeup t (k0\<lparr>cvs := (cvs k0)(cv \<mapsto> c\<lparr>q := qu\<rparr>)\<rparr>)))
              else Returned () k0)"

text \<open>The loop of \<^verbatim>\<open>cv_broadcast\<close>: it ends because each round shortens the queue.\<close>

function cv_broadcast_loop :: "addr \<Rightarrow> kernel \<Rightarrow> unit result" where
  "cv_broadcast_loop cv k =
     (case cvs k cv of
        None \<Rightarrow> Fault
      | Some c \<Rightarrow>
          if q_empty (q c) = 0
          then (case q_remhead (q c) of
                  None \<Rightarrow> Panic
                | Some (t, qu) \<Rightarrow>
                    cv_broadcast_loop cv
                      (thread_wakeup t (k\<lparr>cvs := (cvs k)(cv \<mapsto> c\<lparr>q := qu\<rparr>)\<rparr>)))
          else Returned () k)"
  by pat_completeness auto
termination
proof (relation "measure (\<lambda>(cv, k). case cvs k cv of None \<Rightarrow> 0 | Some c \<Rightarrow> length (q c))")
  show "wf (measure (\<lambda>(cv, k). case cvs k cv of None \<Rightarrow> 0 | Some c \<Rightarrow> length (q c)))"
    by simp
next
  fix cv :: addr and k :: kernel and c :: cv and x :: "addr \<times> addr list"
    and t :: addr and qu :: "addr list"
  assume "q_remhead (q c) = Some x" and "(t, qu) = x" and "cvs k cv = Some c"
  then have "q c = t # qu"
    by (cases "q c") auto
  then show "((cv, thread_wakeup t (k\<lparr>cvs := (cvs k)(cv \<mapsto> c\<lparr>q := qu\<rparr>)\<rparr>)), cv, k)
      \<in> measure (\<lambda>(cv, k). case cvs k cv of None \<Rightarrow> 0 | Some c \<Rightarrow> length (q c))"
    using \<open>cvs k cv = Some c\<close> by (simp add: thread_wakeup_def)
qed

declare cv_broadcast_loop.simps [simp del]

definition cv_broadcast :: "addr \<Rightarrow> addr \<Rightarrow> kernel \<Rightarrow> unit result" where
  "cv_broadcast cv lock k =
     (if cv = NULL then Panic
      else then_do (lock_do_i_hold lock k) (\<lambda>held k0.
             if held = 0 then Panic else cv_broadcast_loop cv k0))"

subsection \<open>Threads and schedules\<close>

text \<open>
  Modelled from the spec: the callers of synch.c and the scheduler are not among the
  sources.  A schedule is a list of events: a thread that is running outside the primitives
  calls one of them, or the scheduler switches to a thread that has been woken, which then
  continues where it went to sleep.  Which event comes next is the choice of the threads
  and of the scheduler; the kernel's reaction to it is \<open>fire\<close>.
\<close>

datatype call =
    Call_P addr
  | Call_V addr
  | Call_lock_acquire addr
  | Call_lock_release addr
  | Call_lock_do_i_hold addr
  | Call_cv_wait int addr addr
  | Call_cv_signal addr addr
  | Call_cv_broadcast addr addr

datatype event = Call addr call | Resume addr

fun do_call :: "call \<Rightarrow> kernel \<Rightarrow> unit result" where
  "do_call (Call_P sem) k = P sem k"
| "do_call (Call_V sem) k = V sem k"
| "do_call (Call_lock_acquire lock) k = lock_acquire lock k"
| "do_call (Call_lock_release lock) k = lock_release lock k"
| "do_call (Call_lock_do_i_hold lock) k = then_do (lock_do_i_hold lock k) (\<lambda>held. Returned ())"
| "do_call (Call_cv_wait r cv lock) k = cv_wait r cv lock k"
| "do_call (Call_cv_signal cv lock) k = cv_signal cv lock k"
| "do_call (Call_cv_broadcast cv lock) k = cv_broadcast cv lock k"

fun resume :: "cont \<Rightarrow> kernel \<Rightarrow> unit result" where
  "resume (In_P sem) k = P_loop sem k"
| "resume (In_lock_acquire lock) k = lock_acquire_loop lock k"
| "resume (In_cv_wait lock) k = lock_acquire lock k"

text \<open>
  A thread has an address of its own: it is not the null pointer and no semaphore, lock
  or condition variable lives there.
\<close>

definition is_thread :: "addr \<Rightarrow> kernel \<Rightarrow> bool" where
  "is_thread t k \<longleftrightarrow> t \<noteq> NULL \<and> sems k t = None \<and> locks k t = None \<and> cvs k t = None"

fun enabled :: "event \<Rightarrow> kernel \<Rightarrow> bool" where
  "enabled (Call t c) k \<longleftrightarrow>
     is_thread t k \<and> t \<notin> set (map fst (sleepers k)) \<and> t \<notin> set (runqueue k)"
| "enabled (Resume t) k \<longleftrightarrow>
     is_thread t k \<and> t \<in> set (runqueue k) \<and> saved k t \<noteq> None"

fun fire :: "event \<Rightarrow> kernel \<Rightarrow> unit result" where
  "fire (Call t c) k = do_call c (k\<lparr>curthread := t\<rparr>)"
| "fire (Resume t) k =
     (case saved k t of
        None \<Rightarrow> Fault
      | Some c \<Rightarrow>
          resume c (k\<lparr>curthread := t,
                      runqueue := removeAll t (runqueue k),
                      saved := (saved k)(t := None)\<rparr>))"

fun kernel_of :: "'a result \<Rightarrow> kernel option" where
  "kernel_of (Returned x k) = Some k"
| "kernel_of (Slept k) = Some k"
| "kernel_of Panic = None"
| "kernel_of Fault = None"

text \<open>
  The state after a schedule; \<open>None\<close> when the schedule asks for an event that cannot
  happen, or when the kernel has stopped.
\<close>

fun exec :: "event list \<Rightarrow> kernel \<Rightarrow> kernel option" where
  "exec [] k = Some k"
| "exec (e # es) k =
     (if enabled e k
      then (case kernel_of (fire e k) of None \<Rightarrow> None | Some k' \<Rightarrow> exec es k')
      else None)"

subsection \<open>Invariants\<close>

text \<open>
  The hold count of a lock is not negative, and it is 0 exactly when the lock has no owner.
\<close>

definition lock_inv :: "lock \<Rightarrow> bool" where
  "lock_inv l \<longleftrightarrow>
     0 \<le> sint (lock_counter l) \<and> (lock_counter l = 0 \<longleftrightarrow> curthread_with_lock l = NULL)"

text \<open>
  What one segment run by thread \<open>t\<close> can do to a lock: nothing; one more acquisition by
  the owner; the taking of a lock that is not held; the owner's last release; or another
  release by the owner.
\<close>

definition lock_step :: "addr \<Rightarrow> lock \<Rightarrow> lock \<Rightarrow> bool" where
  "lock_step t l l' \<longleftrightarrow>
     l' = l
   \<or> (curthread_with_lock l = t \<and> l' = l\<lparr>lock_counter := lock_counter l + 1\<rparr>)
   \<or> (status l \<noteq> 1
        \<and> l' = l\<lparr>curthread_with_lock := t, lock_counter := lock_counter l + 1, status := 1\<rparr>)
   \<or> (curthread_with_lock l = t \<and> lock_counter l - 1 = 0
        \<and> l' = l\<lparr>lock_counter := 0, curthread_with_lock := NULL, status := 0\<rparr>)
   \<or> (curthread_with_lock l = t \<and> lock_counter l - 1 \<noteq> 0
        \<and> l' = l\<lparr>lock_counter := lock_counter l - 1\<rparr>)"

text \<open>
  A lock is either free, with no owner and a hold count of 0, or held, with an owner.
\<close>

definition lock_shape :: "lock \<Rightarrow> bool" where
  "lock_shape l \<longleftrightarrow>
     (status l = 0 \<and> curthread_with_lock l = NULL \<and> lock_counter l = 0)
   \<or> (status l = 1 \<and> curthread_with_lock l \<noteq> NULL)"

definition lock_shape_at :: "addr \<Rightarrow> kernel \<Rightarrow> bool" where
  "lock_shape_at a k \<longleftrightarrow> (\<exists>l. locks k a = Some l \<and> lock_shape l)"

text \<open>And the hold count of a held lock is positive.\<close>

definition lock_ok :: "lock \<Rightarrow> bool" where
  "lock_ok l \<longleftrightarrow>
     (status l = 0 \<and> curthread_with_lock l = NULL \<and> lock_counter l = 0)
   \<or> (status l = 1 \<and> curthread_with_lock l \<noteq> NULL \<and> 0 < sint (lock_counter l))"

definition lock_ok_at :: "addr \<Rightarrow> kernel \<Rightarrow> bool" where
  "lock_ok_at a k \<longleftrightarrow> (\<exists>l. locks k a = Some l \<and> lock_ok l)"

text \<open>
  The step from \<open>k\<close> to \<open>k'\<close> overflows the hold count of the lock at \<open>a\<close>: it takes
  it from \<open>INT_MAX\<close> to \<open>INT_MAX + 1\<close>, which is \<open>- 2147483648\<close>.  And no step of a
  schedule does.
\<close>

definition overflows :: "addr \<Rightarrow> kernel \<Rightarrow> kernel \<Rightarrow> bool" where
  "overflows a k k' \<longleftrightarrow>
     map_option lock_counter (locks k a) = Some INT_MAX
   \<and> map_option lock_counter (locks k' a) = Some (INT_MAX + 1)"

fun no_overflow :: "addr \<Rightarrow> event list \<Rightarrow> kernel \<Rightarrow> bool" where
  "no_overflow a [] k = True"
| "no_overflow a (e # es) k =
     (case kernel_of (fire e k) of
        None \<Rightarrow> True
      | Some k' \<Rightarrow> \<not> overflows a k k' \<and> no_overflow a es k')"

text \<open>The count of a semaphore is not negative.\<close>

definition sem_ok_at :: "addr \<Rightarrow> kernel \<Rightarrow> bool" where
  "sem_ok_at a k \<longleftrightarrow> (\<exists>s. sems k a = Some s \<and> sint (count s) \<ge> 0)"

text \<open>
  The scheduler's books are consistent: no thread sleeps twice, no thread is both asleep
  and runnable, and every sleeping thread sleeps on its own address or on the address of a
  semaphore or lock.  The wait queues are consistent: no thread is queued twice, on one
  condition variable or on two, and every queued thread sleeps on its own address.
\<close>

definition sched_ok :: "kernel \<Rightarrow> bool" where
  "sched_ok k \<longleftrightarrow>
     distinct (map fst (sleepers k))
   \<and> (\<forall>t \<in> set (runqueue k). t \<notin> set (map fst (sleepers k)))
   \<and> (\<forall>(t, a) \<in> set (sleepers k).
        is_thread t k \<and> (a = t \<or> sems k a \<noteq> None \<or> locks k a \<noteq> None))"

definition queues_ok :: "kernel \<Rightarrow> bool" where
  "queues_ok k \<longleftrightarrow>
     (\<forall>cv c. cvs k cv = Some c \<longrightarrow>
        distinct (q c) \<and> (\<forall>t \<in> set (q c). (t, t) \<in> set (sleepers k)))
   \<and> (\<forall>cv1 cv2 c1 c2. cv1 \<noteq> cv2 \<longrightarrow> cvs k cv1 = Some c1 \<longrightarrow> cvs k cv2 = Some c2 \<longrightarrow>
        set (q c1) \<inter> set (q c2) = {})"

definition cv_inv :: "kernel \<Rightarrow> bool" where
  "cv_inv k \<longleftrightarrow> sched_ok k \<and> queues_ok k"

text \<open>No thread sleeps and every wait queue is empty, as after boot.\<close>

definition quiescent :: "kernel \<Rightarrow> bool" where
  "quiescent k \<longleftrightarrow> sleepers k = [] \<and> (\<forall>cv c. cvs k cv = Some c \<longrightarrow> q c = [])"

text \<open>The current thread is a thread, and neither asleep nor waiting to be scheduled.\<close>

definition running :: "kernel \<Rightarrow> bool" where
  "running k \<longleftrightarrow>
     is_thread (curthread k) k \<and> curthread k \<notin> set (map fst (sleepers k))
   \<and> curthread k \<notin> set (runqueue k)"

text \<open>The same call, made \<open>n\<close> times in a row by the running thread.\<close>

fun repeat :: "nat \<Rightarrow> (kernel \<Rightarrow> unit result) \<Rightarrow> kernel \<Rightarrow> unit result" where
  "repeat 0 f k = Returned () k"
| "repeat (Suc n) f k = then_do (f k) (\<lambda>u. repeat n f)"

subsection \<open>Concrete kernel states\<close>

text \<open>
  A kernel in which nothing has been created yet, thread 7 running; a free lock at address
  100; the same lock held once by thread 7, with an empty condition variable at address
  200.
\<close>

definition k_boot :: kernel where
  "k_boot = \<lparr>curthread = 7, in_interrupt = 0, sems = Map.empty, locks = Map.empty,
     cvs = Map.empty, sleepers = [], runqueue = [], saved = Map.empty\<rparr>"

definition l_free :: lock where
  "l_free = \<lparr>lock_name = ''l'', status = 0, curthread_with_lock = NULL, lock_counter = 0\<rparr>"

definition k_free :: kernel where
  "k_free = k_boot\<lparr>locks := [100 \<mapsto> l_free]\<rparr>"

definition l_held :: lock where
  "l_held = \<lparr>lock_name = ''l'', status = 1, curthread_with_lock = 7, lock_counter = 1\<rparr>"

definition k_held :: kernel where
  "k_held = k_boot\<lparr>locks := [100 \<mapsto> l_held], cvs := [200 \<mapsto> \<lparr>cv_name = ''c'', q = []\<rparr>]\<rparr>"

text \<open>
  Thread 7 holds the lock at 100 twice while thread 8 sleeps in \<^verbatim>\<open>lock_acquire\<close>.
  In other states there is a semaphore with count 0 at address 300, first with no sleeper,
  then with thread 7 asleep in \<^verbatim>\<open>P\<close>.
\<close>

definition l_held2 :: lock where
  "l_held2 = \<lparr>lock_name = ''l'', status = 1, curthread_with_lock = 7, lock_counter = 2\<rparr>"

definition k_wait8 :: kernel where
  "k_wait8 = k_boot\<lparr>curthread := 8, locks := [100 \<mapsto> l_held2], sleepers := [(8, 100)],
     saved := [8 \<mapsto> In_lock_acquire 100]\<rparr>"

definition s_zero :: semaphore where
  "s_zero = \<lparr>sem_name = ''s'', count = 0\<rparr>"

definition k_sem :: kernel where
  "k_sem = k_boot\<lparr>sems := [300 \<mapsto> s_zero]\<rparr>"

definition k_semwait :: kernel where
  "k_semwait = k_sem\<lparr>sleepers := [(7, 300)], saved := [7 \<mapsto> In_P 300]\<rparr>"

text \<open>
  A free lock at 100 and a condition variable with an empty wait queue at 200; then
  threads 1, 2 and 3 have called \<^verbatim>\<open>cv_wait\<close> in this order and thread 4 holds the
  lock.
\<close>

definition k_cv0 :: kernel where
  "k_cv0 = k_boot\<lparr>locks := [100 \<mapsto> l_free], cvs := [200 \<mapsto> \<lparr>cv_name = ''c'', q = []\<rparr>]\<rparr>"

definition l_held4 :: lock where
  "l_held4 = \<lparr>lock_name = ''l'', status = 1, curthread_with_lock = 4, lock_counter = 1\<rparr>"

definition k_waiters :: kernel where
  "k_waiters = k_boot\<lparr>curthread := 4, locks := [100 \<mapsto> l_held4],
     cvs := [200 \<mapsto> \<lparr>cv_name = ''c'', q = [1, 2, 3]\<rparr>],
     sleepers := [(1, 1), (2, 2), (3, 3)],
     saved := [1 \<mapsto> In_cv_wait 100, 2 \<mapsto> In_cv_wait 100, 3 \<mapsto> In_cv_wait 100]\<rparr>"

definition three_waits :: "event list" where
  "three_waits =
     [Call 1 (Call_lock_acquire 100), Call 1 (Call_cv_wait 0 200 100),
      Call 2 (Call_lock_acquire 100), Call 2 (Call_cv_wait 0 200 100),
      Call 3 (Call_lock_acquire 100), Call 3 (Call_cv_wait 0 200 100),
      Call 4 (Call_lock_acquire 100)]"

definition k_held4 :: kernel where
  "k_held4 = k_cv0\<lparr>curthread := 4, locks := [100 \<mapsto> l_held4]\<rparr>"

text \<open>
  Thread 7 holds the lock at 100 with a hold count of \<open>INT_MAX\<close>, and with the hold count
  that one more acquisition leaves.  A semaphore at 300 with a count of \<open>INT_MAX\<close>.
\<close>

definition l_full :: lock where
  "l_full = \<lparr>lock_name = ''l'', status = 1, curthread_with_lock = 7, lock_counter = 2147483647\<rparr>"

definition l_over :: lock where
  "l_over = \<lparr>lock_name = ''l'', status = 1, curthread_with_lock = 7, lock_counter = 2147483648\<rparr>"

definition s_full :: semaphore where
  "s_full = \<lparr>sem_name = ''s'', count = 2147483647\<rparr>"

definition k_semfull :: kernel where
  "k_semfull = k_boot\<lparr>sems := [300 \<mapsto> s_full]\<rparr>"

section \<open>Properties\<close>

lemmas op_defs =
  P_def P_loop_def V_def lock_acquire_def lock_acquire_loop_def lock_release_def
  lock_do_i_hold_def cv_wait_def cv_signal_def cv_broadcast_def q_addtail_def q_empty_def
  thread_sleep_def thread_wakeup_def sleeping_on_def is_thread_def NULL_def

lemmas state_defs =
  k_boot_def k_free_def k_held_def k_wait8_def k_sem_def k_semwait_def
  l_free_def l_held_def l_held2_def s_zero_def k_cv0_def l_held4_def k_waiters_def
  k_held4_def l_full_def l_over_def s_full_def k_semfull_def

subsection \<open>Signed values of 32-bit words\<close>

lemma sint_eq_iff: "(sint (x :: c_int) = sint y) = (x = y)"
  by (auto intro: signed_word_eqI)

lemma sint_zero_iff: "(sint (x :: c_int) = 0) = (x = 0)"
  using sint_eq_iff [of x 0] by simp

lemma sint_inc:
  assumes "(x :: c_int) \<noteq> INT_MAX"
  shows "sint (x + 1) = sint x + 1"
proof -
  have "sint x \<noteq> sint INT_MAX" using assms by (simp add: sint_eq_iff)
  then have "sint x \<noteq> 2147483647" by (simp add: INT_MAX_def)
  moreover have "sint x < 2147483648" using sint_lt [of x] by simp
  moreover have "- 2147483648 \<le> sint x" using sint_ge [of x] by simp
  ultimately have "signed_take_bit 31 (sint x + 1) = sint x + 1"
    by (intro signed_take_bit_int_eq_self) simp_all
  then show ?thesis by (simp add: sint_word_ariths)
qed

lemma sint_dec:
  assumes "0 < sint (x :: c_int)"
  shows "sint (x - 1) = sint x - 1"
proof -
  have "sint x < 2147483648" using sint_lt [of x] by simp
  with assms have "signed_take_bit 31 (sint x - 1) = sint x - 1"
    by (intro signed_take_bit_int_eq_self) simp_all
  then show ?thesis by (simp add: sint_word_ariths)
qed

lemma sint_INT_MAX: "sint INT_MAX = 2147483647"
  by (simp add: INT_MAX_def)

lemma sint_le_INT_MAX: "sint (x :: c_int) \<le> 2147483647"
  using sint_lt [of x] by simp

lemma sint_inc_overflow: "sint (INT_MAX + 1) = - 2147483648"
  by (simp add: INT_MAX_def)

lemma sint_inc_pos: "0 < sint ((x :: c_int) + 1) \<Longrightarrow> x \<noteq> INT_MAX"
  using sint_inc_overflow by auto

subsection \<open>Concrete runs\<close>

lemma create_k_free: "lock_create 100 True ''l'' k_boot = Returned 100 k_free"
  by (simp add: lock_create_def state_defs NULL_def)

lemma not_null_100: "(100::addr) \<noteq> NULL"
  by (simp add: NULL_def)

lemma exec_k_held1:
  "exec [Call 7 (Call_lock_acquire 100)] k_free = Some (k_boot\<lparr>locks := [100 \<mapsto> l_held]\<rparr>)"
  by (simp add: op_defs state_defs)

lemma exec_k_wait8:
  "exec [Call 7 (Call_lock_acquire 100), Call 7 (Call_lock_acquire 100),
         Call 8 (Call_lock_acquire 100)] k_free = Some k_wait8"
  by (simp add: op_defs state_defs)

lemma exec_k_wait8_rel:
  "exec [Call 7 (Call_lock_acquire 100), Call 7 (Call_lock_acquire 100),
         Call 8 (Call_lock_acquire 100), Call 7 (Call_lock_release 100)] k_free
     = Some (k_wait8\<lparr>curthread := 7, locks := [100 \<mapsto> l_held]\<rparr>)"
  by (simp add: op_defs state_defs)

lemma create_k_sem: "sem_create 300 True ''s'' 0 k_boot = Returned 300 k_sem"
  by (simp add: sem_create_def state_defs NULL_def)

lemma create_k_semfull: "sem_create 300 True ''s'' 2147483647 k_boot = Returned 300 k_semfull"
  by (simp add: sem_create_def state_defs NULL_def)

lemma not_null_300: "(300::addr) \<noteq> NULL"
  by (simp add: NULL_def)

lemma exec_k_semwait: "exec [Call 7 (Call_P 300)] k_sem = Some k_semwait"
  by (simp add: op_defs state_defs)

lemma exec_k_semwait_V:
  "exec [Call 7 (Call_P 300), Call 8 (Call_V 300)] k_sem
     = Some (k_boot\<lparr>curthread := 8, sems := [300 \<mapsto> s_zero\<lparr>count := 1\<rparr>],
                     runqueue := [7], saved := [7 \<mapsto> In_P 300]\<rparr>)"
  by (simp add: op_defs state_defs)

lemma exec_k_semwait_V_P:
  "exec [Call 7 (Call_P 300), Call 8 (Call_V 300), Resume 7] k_sem = Some k_sem"
  by (simp add: op_defs state_defs)

lemma quiescent_k_cv0: "quiescent k_cv0"
  by (simp add: quiescent_def state_defs)

lemma exec_three_waits: "exec three_waits k_cv0 = Some k_waiters"
  by (simp add: three_waits_def op_defs state_defs)

lemma exec_k_held4: "exec [Call 4 (Call_lock_acquire 100)] k_cv0 = Some k_held4"
  by (simp add: op_defs state_defs)

subsection \<open>Invariants of schedules\<close>

lemma exec_invariant:
  assumes step: "\<And>e k k'. I k \<Longrightarrow> enabled e k \<Longrightarrow> kernel_of (fire e k) = Some k' \<Longrightarrow> I k'"
  shows "I k0 \<Longrightarrow> exec evs k0 = Some k \<Longrightarrow> I k"
proof (induction evs arbitrary: k0)
  case Nil
  then show ?case by simp
next
  case (Cons e es)
  from Cons.prems(2) obtain k1 where en: "enabled e k0"
    and f: "kernel_of (fire e k0) = Some k1" and rest: "exec es k1 = Some k"
    by (auto split: if_splits option.splits)
  from step [OF Cons.prems(1) en f] have "I k1" .
  then show ?case using Cons.IH rest by blast
qed

subsection \<open>What each operation leaves unchanged\<close>

lemma cv_broadcast_loop_frame:
  "kernel_of (cv_broadcast_loop cv k) = Some k' \<Longrightarrow>
     locks k' = locks k \<and> sems k' = sems k \<and> curthread k' = curthread k
     \<and> in_interrupt k' = in_interrupt k \<and> saved k' = saved k"
proof (induction cv k rule: cv_broadcast_loop.induct)
  case (1 cv k)
  show ?case
  proof (cases "cvs k cv")
    case None
    with "1.prems" show ?thesis by (simp add: cv_broadcast_loop.simps [of cv k])
  next
    case (Some c)
    show ?thesis
    proof (cases "q c")
      case Nil
      with Some "1.prems" show ?thesis
        by (simp add: cv_broadcast_loop.simps [of cv k] q_empty_def)
    next
      case (Cons t qu)
      with Some "1.prems" "1.IH" [of c "(t, qu)" t qu] show ?thesis
        by (simp add: cv_broadcast_loop.simps [of cv k] q_empty_def thread_wakeup_def)
    qed
  qed
qed

lemma then_do_kernel_of:
  "kernel_of (then_do m f) = Some k' \<Longrightarrow>
     (\<exists>x k1. m = Returned x k1 \<and> kernel_of (f x k1) = Some k') \<or> m = Slept k'"
  by (cases m) auto

lemma lock_release_not_Slept: "lock_release b k \<noteq> Slept k'"
  by (simp add: lock_release_def Let_def split: option.splits)

lemma cv_wait_kernel_of:
  assumes "kernel_of (cv_wait r cv b k) = Some k'"
  shows "\<exists>l c k2. locks k b = Some l \<and> curthread_with_lock l = curthread k
           \<and> cvs k cv = Some c \<and> r = 0
           \<and> lock_release b (k\<lparr>cvs := (cvs k)(cv \<mapsto> c\<lparr>q := q c @ [curthread k]\<rparr>)\<rparr>)
               = Returned () k2
           \<and> k' = thread_sleep (curthread k2) (In_cv_wait b) k2"
proof -
  from assms obtain l where l: "locks k b = Some l" and own: "curthread_with_lock l = curthread k"
    by (auto simp: cv_wait_def lock_do_i_hold_def split: option.splits if_splits)
  with assms obtain c where c: "cvs k cv = Some c" and r: "r = 0"
    by (auto simp: cv_wait_def lock_do_i_hold_def q_addtail_def split: option.splits if_splits)
  let ?k1 = "k\<lparr>cvs := (cvs k)(cv \<mapsto> c\<lparr>q := q c @ [curthread k]\<rparr>)\<rparr>"
  from assms l own c r
  have "kernel_of (then_do (lock_release b ?k1)
          (\<lambda>u k2. Slept (thread_sleep (curthread k2) (In_cv_wait b) k2) :: unit result)) = Some k'"
    by (simp add: cv_wait_def lock_do_i_hold_def q_addtail_def)
  then obtain u k2 where "lock_release b ?k1 = Returned u k2"
    and "k' = thread_sleep (curthread k2) (In_cv_wait b) k2"
    by (auto dest!: then_do_kernel_of simp: lock_release_not_Slept)
  with l own c r show ?thesis by auto
qed

lemma cv_signal_frame:
  "kernel_of (cv_signal cv b k) = Some k' \<Longrightarrow>
     locks k' = locks k \<and> sems k' = sems k \<and> curthread k' = curthread k"
  by (cases "q (the (cvs k cv))")
     (auto simp: cv_signal_def lock_do_i_hold_def q_empty_def thread_wakeup_def
      split: option.splits if_splits)

lemma cv_broadcast_frame:
  "kernel_of (cv_broadcast cv b k) = Some k' \<Longrightarrow>
     locks k' = locks k \<and> sems k' = sems k \<and> curthread k' = curthread k"
  by (auto simp: cv_broadcast_def lock_do_i_hold_def
      dest!: cv_broadcast_loop_frame split: option.splits if_splits)

lemma lock_do_i_hold_frame:
  "lock_do_i_hold b k = Returned x k' \<Longrightarrow> k' = k"
  by (auto simp: lock_do_i_hold_def split: option.splits if_splits)

lemma lock_acquire_loop_frame:
  "kernel_of (lock_acquire_loop b k) = Some k' \<Longrightarrow>
     sems k' = sems k \<and> cvs k' = cvs k \<and> curthread k' = curthread k"
  by (auto simp: lock_acquire_loop_def thread_sleep_def split: option.splits if_splits)

lemma lock_acquire_frame:
  "kernel_of (lock_acquire b k) = Some k' \<Longrightarrow>
     sems k' = sems k \<and> cvs k' = cvs k \<and> curthread k' = curthread k"
  by (auto simp: lock_acquire_def lock_acquire_loop_def thread_sleep_def
      split: option.splits if_splits)

lemma lock_release_frame:
  "kernel_of (lock_release b k) = Some k' \<Longrightarrow>
     sems k' = sems k \<and> cvs k' = cvs k \<and> curthread k' = curthread k"
  by (auto simp: lock_release_def thread_wakeup_def Let_def split: option.splits if_splits)

lemma cv_wait_frame:
  assumes "kernel_of (cv_wait r cv b k) = Some k'"
  shows "sems k' = sems k \<and> curthread k' = curthread k"
proof -
  from cv_wait_kernel_of [OF assms] obtain c k2 where
    rel: "lock_release b (k\<lparr>cvs := (cvs k)(cv \<mapsto> c\<lparr>q := q c @ [curthread k]\<rparr>)\<rparr>) = Returned () k2"
    and k': "k' = thread_sleep (curthread k2) (In_cv_wait b) k2"
    by blast
  from rel have "kernel_of (lock_release b (k\<lparr>cvs := (cvs k)(cv \<mapsto> c\<lparr>q := q c @ [curthread k]\<rparr>)\<rparr>)) = Some k2"
    by simp
  from lock_release_frame [OF this] show ?thesis
    by (simp add: k' thread_sleep_def)
qed

subsection \<open>What each operation does to a lock\<close>

lemma lock_step_refl: "lock_step t l l"
  by (simp add: lock_step_def)

lemma lock_step_frame:
  "locks k' = locks k \<Longrightarrow> locks k a = Some l \<Longrightarrow>
     \<exists>l'. locks k' a = Some l' \<and> lock_step t l l'"
  by (simp add: lock_step_def)

lemma lock_acquire_loop_lock_step:
  assumes "kernel_of (lock_acquire_loop b k) = Some k'" and "locks k a = Some l"
  shows "\<exists>l'. locks k' a = Some l' \<and> lock_step (curthread k) l l'"
proof -
  from assms(1) obtain lb where lb: "locks k b = Some lb"
    by (auto simp: lock_acquire_loop_def split: option.splits)
  show ?thesis
  proof (cases "status lb = 1")
    case True
    with assms lb have "locks k' = locks k"
      by (auto simp: lock_acquire_loop_def thread_sleep_def)
    then show ?thesis using assms(2) by (rule lock_step_frame)
  next
    case False
    with assms(1) lb have k': "k' = k\<lparr>locks := (locks k)(b \<mapsto>
        lb\<lparr>curthread_with_lock := curthread k, lock_counter := lock_counter lb + 1,
           status := 1\<rparr>)\<rparr>"
      by (simp add: lock_acquire_loop_def)
    show ?thesis
    proof (cases "b = a")
      case True
      with lb assms(2) have "lb = l" by simp
      with True k' False show ?thesis by (simp add: lock_step_def)
    next
      case False
      with k' assms(2) show ?thesis by (simp add: lock_step_def)
    qed
  qed
qed

lemma lock_acquire_lock_step:
  assumes "kernel_of (lock_acquire b k) = Some k'" and "locks k a = Some l"
  shows "\<exists>l'. locks k' a = Some l' \<and> lock_step (curthread k) l l'"
proof -
  from assms(1) obtain lb where lb: "locks k b = Some lb"
    by (auto simp: lock_acquire_def split: option.splits if_splits)
  show ?thesis
  proof (cases "curthread k = curthread_with_lock lb")
    case True
    with assms(1) lb have k': "k' = k\<lparr>locks := (locks k)(b \<mapsto>
        lb\<lparr>lock_counter := lock_counter lb + 1\<rparr>)\<rparr>"
      by (simp add: lock_acquire_def split: if_splits)
    show ?thesis
    proof (cases "b = a")
      case True
      with lb assms(2) have "lb = l" by simp
      with True k' \<open>curthread k = curthread_with_lock lb\<close> show ?thesis
        by (auto simp: lock_step_def)
    next
      case False
      with k' assms(2) show ?thesis by (simp add: lock_step_def)
    qed
  next
    case False
    with assms(1) lb have "kernel_of (lock_acquire_loop b k) = Some k'"
      by (simp add: lock_acquire_def split: if_splits)
    then show ?thesis using assms(2) by (rule lock_acquire_loop_lock_step)
  qed
qed

lemma lock_release_lock_step:
  assumes "kernel_of (lock_release b k) = Some k'" and "locks k a = Some l"
  shows "\<exists>l'. locks k' a = Some l' \<and> lock_step (curthread k) l l'"
proof -
  from assms(1) obtain lb where lb: "locks k b = Some lb"
    by (auto simp: lock_release_def split: option.splits if_splits)
  show ?thesis
  proof (cases "curthread k = curthread_with_lock lb")
    case False
    with assms(1) lb have "k' = k"
      by (simp add: lock_release_def split: if_splits)
    with assms(2) show ?thesis by (simp add: lock_step_def)
  next
    case True
    show ?thesis
    proof (cases "b = a")
      case False
      with assms lb True show ?thesis
        by (auto simp: lock_release_def thread_wakeup_def Let_def lock_step_def
            split: if_splits)
    next
      case same: True
      with lb assms(2) have "lb = l" by simp
      with assms lb True same show ?thesis
        by (auto simp: lock_release_def thread_wakeup_def Let_def lock_step_def
            split: if_splits)
    qed
  qed
qed

lemma cv_wait_lock_step:
  assumes "kernel_of (cv_wait r cv b k) = Some k'" and "locks k a = Some l"
  shows "\<exists>l'. locks k' a = Some l' \<and> lock_step (curthread k) l l'"
proof -
  from cv_wait_kernel_of [OF assms(1)] obtain c k2 where
    rel: "lock_release b (k\<lparr>cvs := (cvs k)(cv \<mapsto> c\<lparr>q := q c @ [curthread k]\<rparr>)\<rparr>) = Returned () k2"
    and k': "k' = thread_sleep (curthread k2) (In_cv_wait b) k2"
    by blast
  let ?k1 = "k\<lparr>cvs := (cvs k)(cv \<mapsto> c\<lparr>q := q c @ [curthread k]\<rparr>)\<rparr>"
  from rel have "kernel_of (lock_release b ?k1) = Some k2" by simp
  moreover from assms(2) have "locks ?k1 a = Some l" by simp
  ultimately have "\<exists>l'. locks k2 a = Some l' \<and> lock_step (curthread ?k1) l l'"
    by (rule lock_release_lock_step)
  then show ?thesis by (simp add: k' thread_sleep_def)
qed

lemma do_call_lock_step:
  assumes "kernel_of (do_call c k) = Some k'" and "locks k a = Some l"
  shows "\<exists>l'. locks k' a = Some l' \<and> lock_step (curthread k) l l'"
proof (cases c)
  case (Call_P sem)
  with assms(1) have "locks k' = locks k"
    by (auto simp: P_def P_loop_def thread_sleep_def split: option.splits if_splits)
  then show ?thesis using assms(2) by (rule lock_step_frame)
next
  case (Call_V sem)
  with assms(1) have "locks k' = locks k"
    by (auto simp: V_def thread_wakeup_def Let_def split: option.splits if_splits)
  then show ?thesis using assms(2) by (rule lock_step_frame)
next
  case (Call_lock_acquire b)
  with assms lock_acquire_lock_step [of b k k' a l] show ?thesis by simp
next
  case (Call_lock_release b)
  with assms lock_release_lock_step [of b k k' a l] show ?thesis by simp
next
  case (Call_lock_do_i_hold b)
  with assms(1) have "k' = k"
    by (auto simp: lock_do_i_hold_def split: option.splits if_splits)
  with assms(2) show ?thesis by (simp add: lock_step_def)
next
  case (Call_cv_wait r cv b)
  with assms cv_wait_lock_step [of r cv b k k' a l] show ?thesis by simp
next
  case (Call_cv_signal cv b)
  with assms(1) cv_signal_frame [of cv b k k'] have "locks k' = locks k" by simp
  then show ?thesis using assms(2) by (rule lock_step_frame)
next
  case (Call_cv_broadcast cv b)
  with assms(1) cv_broadcast_frame [of cv b k k'] have "locks k' = locks k" by simp
  then show ?thesis using assms(2) by (rule lock_step_frame)
qed

lemma resume_lock_step:
  assumes "kernel_of (resume c k) = Some k'" and "locks k a = Some l"
  shows "\<exists>l'. locks k' a = Some l' \<and> lock_step (curthread k) l l'"
proof (cases c)
  case (In_P sem)
  with assms(1) have "locks k' = locks k"
    by (auto simp: P_loop_def thread_sleep_def split: option.splits if_splits)
  then show ?thesis using assms(2) by (rule lock_step_frame)
next
  case (In_lock_acquire b)
  with assms lock_acquire_loop_lock_step [of b k k' a l] show ?thesis by simp
next
  case (In_cv_wait b)
  with assms lock_acquire_lock_step [of b k k' a l] show ?thesis by simp
qed

lemma fire_lock_step:
  assumes "enabled e k" and "kernel_of (fire e k) = Some k'" and "locks k a = Some l"
  shows "\<exists>t l'. t \<noteq> NULL \<and> locks k' a = Some l' \<and> lock_step t l l'"
proof (cases e)
  case (Call t c)
  with assms have "kernel_of (do_call c (k\<lparr>curthread := t\<rparr>)) = Some k'"
    and "locks (k\<lparr>curthread := t\<rparr>) a = Some l" and "t \<noteq> NULL"
    by (simp_all add: is_thread_def)
  with do_call_lock_step [of c "k\<lparr>curthread := t\<rparr>" k' a l] show ?thesis by auto
next
  case (Resume t)
  with assms obtain c where c: "saved k t = Some c" by auto
  let ?k = "k\<lparr>curthread := t, runqueue := removeAll t (runqueue k), saved := (saved k)(t := None)\<rparr>"
  from Resume assms c have "kernel_of (resume c ?k) = Some k'"
    and "locks ?k a = Some l" and "t \<noteq> NULL"
    by (simp_all add: is_thread_def)
  with resume_lock_step [of c ?k k' a l] show ?thesis by auto
qed

lemma lock_step_shape:
  assumes "t \<noteq> NULL" and "lock_shape l" and "lock_step t l l'"
  shows "lock_shape l'"
  using assms by (auto simp: lock_step_def lock_shape_def)

lemma lock_step_ok:
  assumes "t \<noteq> NULL" and "lock_ok l"
    and "\<not> (lock_counter l = INT_MAX \<and> lock_counter l' = INT_MAX + 1)"
    and "lock_step t l l'"
  shows "lock_ok l'"
proof -
  have inc: "0 < sint (lock_counter l + 1)"
    if "0 \<le> sint (lock_counter l)" and "lock_counter l' = lock_counter l + 1"
  proof -
    from assms(3) that(2) have "lock_counter l \<noteq> INT_MAX" by auto
    from sint_inc [OF this] that(1) show ?thesis by simp
  qed
  have dec: "0 < sint (lock_counter l - 1)"
    if "0 < sint (lock_counter l)" and "lock_counter l - 1 \<noteq> 0"
  proof -
    from that(2) have "sint (lock_counter l - 1) \<noteq> 0" by (simp add: sint_zero_iff)
    with sint_dec [OF that(1)] that(1) show ?thesis by simp
  qed
  from assms(4) consider "l' = l"
    | "curthread_with_lock l = t" "l' = l\<lparr>lock_counter := lock_counter l + 1\<rparr>"
    | "status l \<noteq> 1"
      "l' = l\<lparr>curthread_with_lock := t, lock_counter := lock_counter l + 1, status := 1\<rparr>"
    | "curthread_with_lock l = t" "lock_counter l - 1 = 0"
      "l' = l\<lparr>lock_counter := 0, curthread_with_lock := NULL, status := 0\<rparr>"
    | "curthread_with_lock l = t" "lock_counter l - 1 \<noteq> 0"
      "l' = l\<lparr>lock_counter := lock_counter l - 1\<rparr>"
    by (auto simp: lock_step_def)
  then show ?thesis
  proof cases
    case 1
    with assms(2) show ?thesis by simp
  next
    case 2
    with assms(1,2) inc show ?thesis by (auto simp: lock_ok_def)
  next
    case 3
    with assms(1,2) show ?thesis by (auto simp: lock_ok_def)
  next
    case 4
    then show ?thesis by (simp add: lock_ok_def)
  next
    case 5
    with assms(1,2) dec show ?thesis by (auto simp: lock_ok_def)
  qed
qed

lemma lock_step_inv:
  assumes "t \<noteq> NULL" and "lock_inv l"
    and "\<not> (lock_counter l = INT_MAX \<and> lock_counter l' = INT_MAX + 1)"
    and "lock_step t l l'"
  shows "lock_inv l'"
proof -
  from assms(2) have nn: "0 \<le> sint (lock_counter l)" by (simp add: lock_inv_def)
  have inc: "0 < sint (lock_counter l + 1)" if "lock_counter l' = lock_counter l + 1"
  proof -
    from assms(3) that have "lock_counter l \<noteq> INT_MAX" by auto
    from sint_inc [OF this] nn show ?thesis by simp
  qed
  have dec: "0 \<le> sint (lock_counter l - 1)" if "curthread_with_lock l = t"
  proof -
    from that assms(1,2) have "lock_counter l \<noteq> 0" by (auto simp: lock_inv_def)
    then have "sint (lock_counter l) \<noteq> 0" by (simp add: sint_zero_iff)
    with nn have "0 < sint (lock_counter l)" by simp
    from sint_dec [OF this] this show ?thesis by simp
  qed
  from assms(4) consider "l' = l"
    | "curthread_with_lock l = t" "l' = l\<lparr>lock_counter := lock_counter l + 1\<rparr>"
    | "status l \<noteq> 1"
      "l' = l\<lparr>curthread_with_lock := t, lock_counter := lock_counter l + 1, status := 1\<rparr>"
    | "curthread_with_lock l = t" "lock_counter l - 1 = 0"
      "l' = l\<lparr>lock_counter := 0, curthread_with_lock := NULL, status := 0\<rparr>"
    | "curthread_with_lock l = t" "lock_counter l - 1 \<noteq> 0"
      "l' = l\<lparr>lock_counter := lock_counter l - 1\<rparr>"
    by (auto simp: lock_step_def)
  then show ?thesis
  proof cases
    case 1
    with assms(2) show ?thesis by simp
  next
    case 2
    from 2(2) have "lock_counter l' = lock_counter l + 1" by simp
    from inc [OF this] have p: "0 < sint (lock_counter l + 1)" .
    then have "lock_counter l + 1 \<noteq> 0" by auto
    with 2 p assms(1) show ?thesis by (simp add: lock_inv_def)
  next
    case 3
    from 3(2) have "lock_counter l' = lock_counter l + 1" by simp
    from inc [OF this] have p: "0 < sint (lock_counter l + 1)" .
    then have "lock_counter l + 1 \<noteq> 0" by auto
    with 3 p assms(1) show ?thesis by (simp add: lock_inv_def)
  next
    case 4
    then show ?thesis by (simp add: lock_inv_def)
  next
    case 5
    with dec assms(1) show ?thesis by (simp add: lock_inv_def)
  qed
qed

lemma fire_lock_shape:
  assumes "lock_shape_at a k" and "enabled e k" and "kernel_of (fire e k) = Some k'"
  shows "lock_shape_at a k'"
proof -
  from assms(1) obtain l where l: "locks k a = Some l" and s: "lock_shape l"
    by (auto simp: lock_shape_at_def)
  from fire_lock_step [OF assms(2,3) l] obtain t l' where "t \<noteq> NULL"
    and "locks k' a = Some l'" and "lock_step t l l'" by blast
  with s lock_step_shape [of t l l'] show ?thesis by (auto simp: lock_shape_at_def)
qed

lemma exec_lock_shape:
  "lock_shape_at a k0 \<Longrightarrow> exec evs k0 = Some k \<Longrightarrow> lock_shape_at a k"
  by (rule exec_invariant [where I = "lock_shape_at a"]) (rule fire_lock_shape)

lemma exec_lock_ok:
  "lock_ok_at a k0 \<Longrightarrow> no_overflow a evs k0 \<Longrightarrow> exec evs k0 = Some k \<Longrightarrow> lock_ok_at a k"
proof (induction evs arbitrary: k0)
  case Nil
  then show ?case by simp
next
  case (Cons e es)
  from Cons.prems(3) obtain k1 where en: "enabled e k0"
    and f: "kernel_of (fire e k0) = Some k1" and rest: "exec es k1 = Some k"
    by (auto split: if_splits option.splits)
  from Cons.prems(1) obtain l where l: "locks k0 a = Some l" and ok: "lock_ok l"
    by (auto simp: lock_ok_at_def)
  from Cons.prems(2) f have nf: "\<not> overflows a k0 k1" and nfs: "no_overflow a es k1"
    by simp_all
  from fire_lock_step [OF en f l] obtain t l' where "t \<noteq> NULL"
    and l': "locks k1 a = Some l'" and "lock_step t l l'" by blast
  moreover from nf l l' have "\<not> (lock_counter l = INT_MAX \<and> lock_counter l' = INT_MAX + 1)"
    by (simp add: overflows_def)
  ultimately have "lock_ok l'" using ok lock_step_ok [of t l l'] by simp
  with l' have "lock_ok_at a k1" by (auto simp: lock_ok_at_def)
  from Cons.IH [OF this nfs rest] show ?case .
qed

lemma lock_create_lock_ok:
  "lock_create p dup_ok nm k0 = Returned a k1 \<Longrightarrow> a \<noteq> NULL \<Longrightarrow> lock_ok_at a k1"
  by (auto simp: lock_create_def lock_ok_at_def lock_ok_def split: if_splits)

lemma lock_create_lock_shape:
  "lock_create p dup_ok nm k0 = Returned a k1 \<Longrightarrow> a \<noteq> NULL \<Longrightarrow> lock_shape_at a k1"
  by (auto simp: lock_create_def lock_shape_at_def lock_shape_def split: if_splits)

lemma exec_created_lock_shape:
  assumes "lock_create p dup_ok nm k0 = Returned lock k1" and "lock \<noteq> NULL"
    and "exec evs k1 = Some k"
  shows "lock_shape_at lock k"
  by (rule exec_lock_shape [OF lock_create_lock_shape [OF assms(1,2)] assms(3)])

subsection \<open>The count of a semaphore\<close>

lemma P_loop_sem_ok:
  "sem_ok_at a k \<Longrightarrow> kernel_of (P_loop sem k) = Some k' \<Longrightarrow> sem_ok_at a k'"
  by (auto simp: P_loop_def sem_ok_at_def thread_sleep_def sint_dec
      split: option.splits if_splits)

lemma P_sem_ok:
  "sem_ok_at a k \<Longrightarrow> kernel_of (P sem k) = Some k' \<Longrightarrow> sem_ok_at a k'"
  by (auto simp: P_def dest: P_loop_sem_ok split: if_splits)

lemma V_sem_ok:
  "sem_ok_at a k \<Longrightarrow> kernel_of (V sem k) = Some k' \<Longrightarrow> sem_ok_at a k'"
  by (auto simp: V_def sem_ok_at_def thread_wakeup_def Let_def split: option.splits if_splits)

lemma do_call_sem_ok:
  assumes "sem_ok_at a k" and "kernel_of (do_call c k) = Some k'"
  shows "sem_ok_at a k'"
proof (cases c)
  case (Call_P sem)
  with assms P_sem_ok [of a k sem k'] show ?thesis by simp
next
  case (Call_V sem)
  with assms V_sem_ok [of a k sem k'] show ?thesis by simp
next
  case (Call_lock_acquire b)
  with assms lock_acquire_frame [of b k k'] show ?thesis by (simp add: sem_ok_at_def)
next
  case (Call_lock_release b)
  with assms lock_release_frame [of b k k'] show ?thesis by (simp add: sem_ok_at_def)
next
  case (Call_lock_do_i_hold b)
  with assms(2) have "k' = k"
    by (auto simp: lock_do_i_hold_def split: option.splits if_splits)
  with assms(1) show ?thesis by simp
next
  case (Call_cv_wait r cv b)
  with assms cv_wait_frame [of r cv b k k'] show ?thesis by (simp add: sem_ok_at_def)
next
  case (Call_cv_signal cv b)
  with assms cv_signal_frame [of cv b k k'] show ?thesis by (simp add: sem_ok_at_def)
next
  case (Call_cv_broadcast cv b)
  with assms cv_broadcast_frame [of cv b k k'] show ?thesis by (simp add: sem_ok_at_def)
qed

lemma resume_sem_ok:
  assumes "sem_ok_at a k" and "kernel_of (resume c k) = Some k'"
  shows "sem_ok_at a k'"
proof (cases c)
  case (In_P sem)
  with assms P_loop_sem_ok [of a k sem k'] show ?thesis by simp
next
  case (In_lock_acquire b)
  with assms lock_acquire_loop_frame [of b k k'] show ?thesis by (simp add: sem_ok_at_def)
next
  case (In_cv_wait b)
  with assms lock_acquire_frame [of b k k'] show ?thesis by (simp add: sem_ok_at_def)
qed

lemma fire_sem_ok:
  assumes "sem_ok_at a k" and "enabled e k" and "kernel_of (fire e k) = Some k'"
  shows "sem_ok_at a k'"
proof (cases e)
  case (Call t c)
  with assms have "sem_ok_at a (k\<lparr>curthread := t\<rparr>)"
    and "kernel_of (do_call c (k\<lparr>curthread := t\<rparr>)) = Some k'"
    by (simp_all add: sem_ok_at_def)
  then show ?thesis by (rule do_call_sem_ok)
next
  case (Resume t)
  with assms obtain c where c: "saved k t = Some c" by auto
  let ?k = "k\<lparr>curthread := t, runqueue := removeAll t (runqueue k), saved := (saved k)(t := None)\<rparr>"
  from Resume assms c have "sem_ok_at a ?k" and "kernel_of (resume c ?k) = Some k'"
    by (simp_all add: sem_ok_at_def)
  then show ?thesis by (rule resume_sem_ok)
qed

lemma exec_sem_ok:
  "sem_ok_at a k0 \<Longrightarrow> exec evs k0 = Some k \<Longrightarrow> sem_ok_at a k"
  by (rule exec_invariant [where I = "sem_ok_at a"]) (rule fire_sem_ok)

lemma sem_create_sem_ok:
  "sem_create p dup_ok nm n k0 = Returned a k1 \<Longrightarrow> a \<noteq> NULL \<Longrightarrow> sem_ok_at a k1"
  by (auto simp: sem_create_def sem_ok_at_def split: if_splits)

subsection \<open>Repeated acquisitions and releases\<close>

lemma exec_append:
  "exec (xs @ ys) k = (case exec xs k of None \<Rightarrow> None | Some k' \<Rightarrow> exec ys k')"
  by (induction xs arbitrary: k) (auto split: option.splits)

lemma exec_reacquire:
  "exec (replicate n (Call 7 (Call_lock_acquire 100)))
        (k_boot\<lparr>locks := [100 \<mapsto> l_held\<lparr>lock_counter := c\<rparr>]\<rparr>)
     = Some (k_boot\<lparr>locks := [100 \<mapsto> l_held\<lparr>lock_counter := c + of_nat n\<rparr>]\<rparr>)"
proof (induction n arbitrary: c)
  case 0
  show ?case by simp
next
  case (Suc n)
  have "exec (replicate (Suc n) (Call 7 (Call_lock_acquire 100)))
          (k_boot\<lparr>locks := [100 \<mapsto> l_held\<lparr>lock_counter := c\<rparr>]\<rparr>)
      = exec (replicate n (Call 7 (Call_lock_acquire 100)))
          (k_boot\<lparr>locks := [100 \<mapsto> l_held\<lparr>lock_counter := c + 1\<rparr>]\<rparr>)"
    by (simp add: op_defs state_defs)
  also have "\<dots> = Some (k_boot\<lparr>locks := [100 \<mapsto> l_held\<lparr>lock_counter := c + 1 + of_nat n\<rparr>]\<rparr>)"
    by (rule Suc.IH)
  also have "c + 1 + of_nat n = c + of_nat (Suc n)"
    by simp
  finally show ?case .
qed

lemma exec_acquire_n:
  assumes "0 < n"
  shows "exec (replicate n (Call 7 (Call_lock_acquire 100))) k_free
     = Some (k_boot\<lparr>locks := [100 \<mapsto> l_held\<lparr>lock_counter := of_nat n\<rparr>]\<rparr>)"
proof -
  from assms obtain m where n: "n = Suc m" by (cases n) simp_all
  have "exec (replicate (Suc m) (Call 7 (Call_lock_acquire 100))) k_free
      = exec (replicate m (Call 7 (Call_lock_acquire 100)))
          (k_boot\<lparr>locks := [100 \<mapsto> l_held\<lparr>lock_counter := 1\<rparr>]\<rparr>)"
    by (simp add: op_defs state_defs)
  also have "\<dots> = Some (k_boot\<lparr>locks := [100 \<mapsto> l_held\<lparr>lock_counter := 1 + of_nat m\<rparr>]\<rparr>)"
    by (rule exec_reacquire)
  also have "(1 :: c_int) + of_nat m = of_nat (Suc m)"
    by simp
  finally show ?thesis by (simp only: n)
qed

lemma exec_k_full:
  "exec (replicate 2147483647 (Call 7 (Call_lock_acquire 100))) k_free
     = Some (k_boot\<lparr>locks := [100 \<mapsto> l_full]\<rparr>)"
proof -
  have "exec (replicate 2147483647 (Call 7 (Call_lock_acquire 100))) k_free
       = Some (k_boot\<lparr>locks := [100 \<mapsto> l_held\<lparr>lock_counter := of_nat 2147483647\<rparr>]\<rparr>)"
    by (rule exec_acquire_n) simp
  also have "l_held\<lparr>lock_counter := of_nat 2147483647\<rparr> = l_full"
    by (simp add: l_held_def l_full_def)
  finally show ?thesis .
qed

lemma exec_k_over:
  "exec (replicate 2147483648 (Call 7 (Call_lock_acquire 100))) k_free
     = Some (k_boot\<lparr>locks := [100 \<mapsto> l_over]\<rparr>)"
proof -
  have "exec (replicate 2147483648 (Call 7 (Call_lock_acquire 100))) k_free
       = Some (k_boot\<lparr>locks := [100 \<mapsto> l_held\<lparr>lock_counter := of_nat 2147483648\<rparr>]\<rparr>)"
    by (rule exec_acquire_n) simp
  also have "l_held\<lparr>lock_counter := of_nat 2147483648\<rparr> = l_over"
    by (simp add: l_held_def l_over_def)
  finally show ?thesis .
qed

lemma exec_k_wrapped:
  "exec (replicate 4294967297 (Call 7 (Call_lock_acquire 100))) k_free
     = Some (k_boot\<lparr>locks := [100 \<mapsto> l_held]\<rparr>)"
proof -
  have "exec (replicate 4294967297 (Call 7 (Call_lock_acquire 100))) k_free
       = Some (k_boot\<lparr>locks := [100 \<mapsto> l_held\<lparr>lock_counter := of_nat 4294967297\<rparr>]\<rparr>)"
    by (rule exec_acquire_n) simp
  also have "l_held\<lparr>lock_counter := of_nat 4294967297\<rparr> = l_held"
    by (simp add: l_held_def)
  finally show ?thesis .
qed

lemma repeat_release_held:
  assumes "lock \<noteq> NULL"
  shows "locks k lock = Some l \<Longrightarrow> curthread_with_lock l = curthread k \<Longrightarrow>
     int j < sint (lock_counter l) \<Longrightarrow>
     repeat j (lock_release lock) k =
       Returned () (k\<lparr>locks := (locks k)(lock \<mapsto> l\<lparr>lock_counter := lock_counter l - of_nat j\<rparr>)\<rparr>)"
proof (induction j arbitrary: k l)
  case 0
  then have "(locks k)(lock \<mapsto> l) = locks k"
    by (simp add: map_upd_triv)
  then show ?case by simp
next
  case (Suc j)
  let ?l = "l\<lparr>lock_counter := lock_counter l - 1\<rparr>"
  let ?k = "k\<lparr>locks := (locks k)(lock \<mapsto> ?l)\<rparr>"
  from Suc.prems(3) have pos: "0 < sint (lock_counter l)" by simp
  from sint_dec [OF pos] Suc.prems(3) have d: "int j < sint (lock_counter l - 1)" by simp
  then have "sint (lock_counter l - 1) \<noteq> 0" by simp
  then have nz: "lock_counter l - 1 \<noteq> 0" by (simp add: sint_zero_iff)
  from Suc.prems assms nz have r: "lock_release lock k = Returned () ?k"
    by (simp add: lock_release_def)
  have "repeat (Suc j) (lock_release lock) k = repeat j (lock_release lock) ?k"
    by (simp add: r)
  also have "\<dots> =
       Returned () (?k\<lparr>locks := (locks ?k)(lock \<mapsto> ?l\<lparr>lock_counter := lock_counter ?l - of_nat j\<rparr>)\<rparr>)"
    using Suc.prems d by (intro Suc.IH) simp_all
  also have "?k\<lparr>locks := (locks ?k)(lock \<mapsto> ?l\<lparr>lock_counter := lock_counter ?l - of_nat j\<rparr>)\<rparr> =
      k\<lparr>locks := (locks k)(lock \<mapsto> l\<lparr>lock_counter := lock_counter l - of_nat (Suc j)\<rparr>)\<rparr>"
    by (simp add: diff_diff_eq)
  finally show ?case .
qed

lemma sint_add_nat:
  "int m + sint (c :: c_int) \<le> 2147483647 \<Longrightarrow> sint (c + of_nat m) = sint c + int m"
proof (induction m)
  case 0
  show ?case by simp
next
  case (Suc m)
  then have ih: "sint (c + of_nat m) = sint c + int m" by simp
  with Suc.prems have "sint (c + of_nat m) \<noteq> sint INT_MAX"
    by (simp add: sint_INT_MAX)
  then have "c + of_nat m \<noteq> INT_MAX" by auto
  from sint_inc [OF this] ih have "sint (c + of_nat m + 1) = sint c + int m + 1" by simp
  moreover have "c + of_nat m + 1 = c + of_nat (Suc m)" by simp
  ultimately show ?case by simp
qed

lemma repeat_acquire_held:
  assumes "lock \<noteq> NULL"
  shows "locks k lock = Some l \<Longrightarrow> curthread_with_lock l = curthread k \<Longrightarrow>
     repeat m (lock_acquire lock) k =
       Returned () (k\<lparr>locks := (locks k)(lock \<mapsto> l\<lparr>lock_counter := lock_counter l + of_nat m\<rparr>)\<rparr>)"
proof (induction m arbitrary: k l)
  case 0
  then have "(locks k)(lock \<mapsto> l) = locks k"
    by (simp add: map_upd_triv)
  then show ?case by simp
next
  case (Suc m)
  let ?l = "l\<lparr>lock_counter := lock_counter l + 1\<rparr>"
  let ?k = "k\<lparr>locks := (locks k)(lock \<mapsto> ?l)\<rparr>"
  from Suc.prems assms have r: "lock_acquire lock k = Returned () ?k"
    by (simp add: lock_acquire_def)
  have "repeat (Suc m) (lock_acquire lock) k = repeat m (lock_acquire lock) ?k"
    by (simp add: r)
  also have "\<dots> =
       Returned () (?k\<lparr>locks := (locks ?k)(lock \<mapsto> ?l\<lparr>lock_counter := lock_counter ?l + of_nat m\<rparr>)\<rparr>)"
    using Suc.prems by (intro Suc.IH) simp_all
  also have "?k\<lparr>locks := (locks ?k)(lock \<mapsto> ?l\<lparr>lock_counter := lock_counter ?l + of_nat m\<rparr>)\<rparr> =
      k\<lparr>locks := (locks k)(lock \<mapsto> l\<lparr>lock_counter := lock_counter l + of_nat (Suc m)\<rparr>)\<rparr>"
    by (simp add: add.assoc)
  finally show ?case .
qed

lemma release_last:
  assumes "lock \<noteq> NULL" and "locks k lock = Some l"
    and "curthread_with_lock l = curthread k" and "lock_counter l = 1"
  shows "lock_release lock k =
    Returned () (k\<lparr>locks := (locks k)(lock \<mapsto>
                     l\<lparr>lock_counter := 0, curthread_with_lock := NULL, status := 0\<rparr>),
                   sleepers := filter (\<lambda>(x, a). a \<noteq> lock) (sleepers k),
                   runqueue := runqueue k @ map fst (filter (\<lambda>(x, a). a = lock) (sleepers k))\<rparr>)"
  using assms by (simp add: lock_release_def thread_wakeup_def sleeping_on_def)

lemma repeat_snoc:
  "repeat (Suc n) f k = then_do (repeat n f k) (\<lambda>u. f)"
proof (induction n arbitrary: k)
  case 0
  show ?case by (cases "f k") simp_all
next
  case (Suc n)
  show ?case
  proof (cases "f k")
    case (Returned u k1)
    with Suc.IH [of k1] show ?thesis by simp
  qed simp_all
qed

lemma releases_then_sleep:
  assumes "lock \<noteq> NULL" and "locks k lock = Some l"
    and "curthread_with_lock l = curthread k" and "status l = 1"
    and "int j < sint (lock_counter l)" and "u \<noteq> curthread k"
  shows "\<exists>kj. repeat j (lock_release lock) k = Returned () kj
               \<and> lock_acquire lock (kj\<lparr>curthread := u\<rparr>) =
                   Slept (kj\<lparr>curthread := u, sleepers := sleepers kj @ [(u, lock)],
                            saved := (saved kj)(u \<mapsto> In_lock_acquire lock)\<rparr>)"
proof -
  let ?kj = "k\<lparr>locks := (locks k)(lock \<mapsto> l\<lparr>lock_counter := lock_counter l - of_nat j\<rparr>)\<rparr>"
  have "repeat j (lock_release lock) k = Returned () ?kj"
    using repeat_release_held [OF assms(1,2,3,5)] .
  moreover have "lock_acquire lock (?kj\<lparr>curthread := u\<rparr>) =
                   Slept (?kj\<lparr>curthread := u, sleepers := sleepers ?kj @ [(u, lock)],
                            saved := (saved ?kj)(u \<mapsto> In_lock_acquire lock)\<rparr>)"
    using assms(1,3,4,6)
    by (simp add: lock_acquire_def lock_acquire_loop_def thread_sleep_def)
  ultimately show ?thesis by blast
qed

lemma releases_then_acquire:
  assumes "lock \<noteq> NULL" and "locks k lock = Some l"
    and "curthread_with_lock l = curthread k"
    and "0 < sint (lock_counter l)" and "u \<noteq> NULL"
  shows "\<exists>kn. repeat (nat (sint (lock_counter l))) (lock_release lock) k = Returned () kn
               \<and> lock_acquire lock (kn\<lparr>curthread := u\<rparr>) =
                   Returned () (kn\<lparr>curthread := u, locks := (locks kn)(lock \<mapsto>
                     l\<lparr>curthread_with_lock := u, lock_counter := 1, status := 1\<rparr>)\<rparr>)"
proof -
  define m where "m = nat (sint (lock_counter l)) - 1"
  have m: "nat (sint (lock_counter l)) = Suc m"
    using assms(4) unfolding m_def by arith
  have ms: "sint (lock_counter l) = int m + 1"
    using assms(4) unfolding m_def by arith
  then have mj: "int m < sint (lock_counter l)" by simp
  have "lock_counter l = of_int (sint (lock_counter l))" by simp
  also have "\<dots> = of_nat m + 1" by (simp add: ms)
  finally have m1: "lock_counter l - of_nat m = 1" by simp
  let ?l1 = "l\<lparr>lock_counter := lock_counter l - of_nat m\<rparr>"
  let ?k1 = "k\<lparr>locks := (locks k)(lock \<mapsto> ?l1)\<rparr>"
  have r1: "repeat m (lock_release lock) k = Returned () ?k1"
    using repeat_release_held [OF assms(1,2,3) mj] .
  let ?kn = "?k1\<lparr>locks := (locks ?k1)(lock \<mapsto>
                   ?l1\<lparr>lock_counter := 0, curthread_with_lock := NULL, status := 0\<rparr>),
                 sleepers := filter (\<lambda>(x, a). a \<noteq> lock) (sleepers ?k1),
                 runqueue := runqueue ?k1 @ map fst (filter (\<lambda>(x, a). a = lock) (sleepers ?k1))\<rparr>"
  have r2: "lock_release lock ?k1 = Returned () ?kn"
    by (rule release_last [OF assms(1)]) (simp_all add: assms(3) m1)
  have "repeat (nat (sint (lock_counter l))) (lock_release lock) k = Returned () ?kn"
    unfolding m repeat_snoc r1 using r2 by simp
  moreover have "lock_acquire lock (?kn\<lparr>curthread := u\<rparr>) =
                 Returned () (?kn\<lparr>curthread := u, locks := (locks ?kn)(lock \<mapsto>
                   l\<lparr>curthread_with_lock := u, lock_counter := 1, status := 1\<rparr>)\<rparr>)"
    using assms(1,5)
    by (simp add: lock_acquire_def lock_acquire_loop_def)
  ultimately show ?thesis by blast
qed

subsection \<open>Consistency of sleepers and wait queues\<close>

lemma quiescent_cv_inv: "quiescent k \<Longrightarrow> cv_inv k"
  by (simp add: quiescent_def cv_inv_def sched_ok_def queues_ok_def)

lemma cv_inv_curthread [simp]: "cv_inv (k\<lparr>curthread := t\<rparr>) = cv_inv k"
  by (simp add: cv_inv_def sched_ok_def queues_ok_def is_thread_def)

lemma cv_inv_saved [simp]: "cv_inv (k\<lparr>saved := m\<rparr>) = cv_inv k"
  by (simp add: cv_inv_def sched_ok_def queues_ok_def is_thread_def)

lemma cv_inv_removeAll: "cv_inv k \<Longrightarrow> cv_inv (k\<lparr>runqueue := removeAll t (runqueue k)\<rparr>)"
  by (simp add: cv_inv_def sched_ok_def queues_ok_def is_thread_def)

lemma cv_inv_locks:
  "cv_inv k \<Longrightarrow> locks k b = Some l \<Longrightarrow> cv_inv (k\<lparr>locks := (locks k)(b \<mapsto> l')\<rparr>)"
  unfolding cv_inv_def sched_ok_def queues_ok_def is_thread_def
  by (simp split: prod.splits) fastforce

lemma cv_inv_sems:
  "cv_inv k \<Longrightarrow> sems k b = Some s \<Longrightarrow> cv_inv (k\<lparr>sems := (sems k)(b \<mapsto> s')\<rparr>)"
  unfolding cv_inv_def sched_ok_def queues_ok_def is_thread_def
  by (simp split: prod.splits) fastforce

lemma cv_inv_sleep:
  assumes "cv_inv k" and "is_thread (curthread k) k"
    and "curthread k \<notin> set (map fst (sleepers k))" and "curthread k \<notin> set (runqueue k)"
    and "a = curthread k \<or> sems k a \<noteq> None \<or> locks k a \<noteq> None"
  shows "cv_inv (thread_sleep a c k)"
  using assms unfolding cv_inv_def sched_ok_def queues_ok_def is_thread_def thread_sleep_def
  by (simp split: prod.splits) blast

lemma is_thread_wakeup [simp]: "is_thread t (thread_wakeup a k) = is_thread t k"
  by (simp add: is_thread_def thread_wakeup_def)

lemma wakeup_fields [simp]:
  "sleepers (thread_wakeup a k) = filter (\<lambda>(t, c). c \<noteq> a) (sleepers k)"
  "runqueue (thread_wakeup a k) = runqueue k @ sleeping_on a k"
  "sems (thread_wakeup a k) = sems k"
  "locks (thread_wakeup a k) = locks k"
  "cvs (thread_wakeup a k) = cvs k"
  "curthread (thread_wakeup a k) = curthread k"
  by (simp_all add: thread_wakeup_def)

lemma sched_ok_wakeup:
  assumes s: "sched_ok k"
  shows "sched_ok (thread_wakeup a k)"
proof -
  from s have d0: "distinct (map fst (sleepers k))"
    and rq: "\<And>t. t \<in> set (runqueue k) \<Longrightarrow> t \<notin> fst ` set (sleepers k)"
    and th: "\<And>t c. (t, c) \<in> set (sleepers k) \<Longrightarrow>
               is_thread t k \<and> (c = t \<or> sems k c \<noteq> None \<or> locks k c \<noteq> None)"
    by (auto simp: sched_ok_def)
  have d: "distinct (map fst (filter (\<lambda>(t, c). c \<noteq> a) (sleepers k)))"
    using d0 by (rule distinct_map_filter)
  have moved: "t \<notin> fst ` set (filter (\<lambda>(t, c). c \<noteq> a) (sleepers k))"
    if "t \<in> set (sleeping_on a k)" for t
  proof
    assume "t \<in> fst ` set (filter (\<lambda>(t, c). c \<noteq> a) (sleepers k))"
    then obtain c where 1: "(t, c) \<in> set (sleepers k)" and 2: "c \<noteq> a" by auto
    from that have 3: "(t, a) \<in> set (sleepers k)" by (auto simp: sleeping_on_def)
    from eq_key_imp_eq_value [OF d0 1 3] 2 show False by simp
  qed
  have stay: "t \<notin> fst ` set (filter (\<lambda>(t, c). c \<noteq> a) (sleepers k))"
    if "t \<in> set (runqueue k)" for t
  proof -
    have "fst ` set (filter (\<lambda>(t, c). c \<noteq> a) (sleepers k)) \<subseteq> fst ` set (sleepers k)"
      by auto
    with rq [OF that] show ?thesis by blast
  qed
  show ?thesis
    unfolding sched_ok_def
  proof (intro conjI ballI)
    show "distinct (map fst (sleepers (thread_wakeup a k)))"
      using d by simp
  next
    fix t assume "t \<in> set (runqueue (thread_wakeup a k))"
    then have "t \<in> set (runqueue k) \<or> t \<in> set (sleeping_on a k)" by simp
    then show "t \<notin> set (map fst (sleepers (thread_wakeup a k)))"
      using moved stay by auto
  next
    fix x assume "x \<in> set (sleepers (thread_wakeup a k))"
    then have "x \<in> set (sleepers k)" by simp
    with th [of "fst x" "snd x"]
    show "case x of (t, c) \<Rightarrow> is_thread t (thread_wakeup a k)
            \<and> (c = t \<or> sems (thread_wakeup a k) c \<noteq> None \<or> locks (thread_wakeup a k) c \<noteq> None)"
      by (cases x) simp
  qed
qed

lemma cv_inv_wakeup_object:
  assumes "cv_inv k" and "sems k a \<noteq> None \<or> locks k a \<noteq> None"
  shows "cv_inv (thread_wakeup a k)"
proof -
  from assms(1) have s: "sched_ok k" and qo: "queues_ok k" by (simp_all add: cv_inv_def)
  have keep: "(t, t) \<in> set (filter (\<lambda>(t, c). c \<noteq> a) (sleepers k))"
    if "(t, t) \<in> set (sleepers k)" for t
  proof -
    from s that have "is_thread t k" by (auto simp: sched_ok_def)
    with assms(2) have "t \<noteq> a" by (auto simp: is_thread_def)
    with that show ?thesis by simp
  qed
  have "queues_ok (thread_wakeup a k)"
    using qo keep unfolding queues_ok_def
    by simp
  with sched_ok_wakeup [OF s] show ?thesis by (simp add: cv_inv_def)
qed

lemma sleeping_on_own:
  assumes "distinct (map fst xs)" and "(w, w) \<in> set xs"
    and "\<And>x a. (x, a) \<in> set xs \<Longrightarrow> a = w \<Longrightarrow> x = w"
  shows "filter (\<lambda>(x, a). a = w) xs = [(w, w)]
       \<and> filter (\<lambda>(x, a). a \<noteq> w) xs = filter (\<lambda>(x, a). x \<noteq> w) xs"
  using assms
proof (induction xs)
  case Nil
  then show ?case by simp
next
  case (Cons y ys)
  obtain x a where y: "y = (x, a)" by (cases y)
  from Cons.prems(1) have d: "distinct (map fst ys)" and nx: "x \<notin> fst ` set ys"
    by (simp_all add: y)
  have imp: "\<And>x' a'. (x', a') \<in> set ys \<Longrightarrow> a' = w \<Longrightarrow> x' = w"
    using Cons.prems(3) by auto
  show ?case
  proof (cases "(w, w) \<in> set ys")
    case True
    from Cons.IH [OF d True imp] have ih: "filter (\<lambda>(x, a). a = w) ys = [(w, w)]"
      "filter (\<lambda>(x, a). a \<noteq> w) ys = filter (\<lambda>(x, a). x \<noteq> w) ys" by simp_all
    from True nx have "x \<noteq> w" by force
    moreover from this Cons.prems(3) [of x a] have "a \<noteq> w" by (auto simp: y)
    ultimately show ?thesis using ih by (simp add: y)
  next
    case False
    with Cons.prems(2) have xa: "x = w" "a = w" by (auto simp: y)
    have none: "\<And>x' a'. (x', a') \<in> set ys \<Longrightarrow> a' \<noteq> w \<and> x' \<noteq> w"
    proof -
      fix x' a' assume m: "(x', a') \<in> set ys"
      then have "x' \<noteq> w" using nx xa by force
      moreover from imp [OF m] this have "a' \<noteq> w" by blast
      ultimately show "a' \<noteq> w \<and> x' \<noteq> w" by simp
    qed
    have "filter (\<lambda>(x, a). a = w) ys = []"
      using none by (auto simp: filter_empty_conv)
    moreover have "filter (\<lambda>(x, a). a \<noteq> w) ys = filter (\<lambda>(x, a). x \<noteq> w) ys"
      using none by (intro filter_cong) auto
    ultimately show ?thesis by (simp add: y xa)
  qed
qed

lemma cv_inv_head:
  assumes "cv_inv k" and "cvs k cv = Some c" and "w \<in> set (q c)"
  shows "sleeping_on w k = [w]"
    and "filter (\<lambda>(x, a). a \<noteq> w) (sleepers k) = filter (\<lambda>(x, a). x \<noteq> w) (sleepers k)"
    and "(w, w) \<in> set (sleepers k)" and "is_thread w k"
proof -
  from assms(1) have s: "sched_ok k" and qo: "queues_ok k" by (simp_all add: cv_inv_def)
  from qo assms(2,3) show ww: "(w, w) \<in> set (sleepers k)"
    by (auto simp: queues_ok_def)
  with s show th: "is_thread w k" by (auto simp: sched_ok_def)
  from s have d: "distinct (map fst (sleepers k))" by (simp add: sched_ok_def)
  have imp: "x = w" if "(x, a) \<in> set (sleepers k)" and "a = w" for x a
  proof -
    from s that(1) have "a = x \<or> sems k a \<noteq> None \<or> locks k a \<noteq> None"
      by (auto simp: sched_ok_def)
    with th that(2) show ?thesis by (auto simp: is_thread_def)
  qed
  from sleeping_on_own [OF d ww imp]
  show "sleeping_on w k = [w]"
    and "filter (\<lambda>(x, a). a \<noteq> w) (sleepers k) = filter (\<lambda>(x, a). x \<noteq> w) (sleepers k)"
    by (simp_all add: sleeping_on_def)
qed


lemma sched_ok_cvs:
  "sched_ok k \<Longrightarrow> cvs k cv = Some c \<Longrightarrow> sched_ok (k\<lparr>cvs := (cvs k)(cv \<mapsto> c')\<rparr>)"
  unfolding sched_ok_def is_thread_def
  by (simp split: prod.splits) fastforce

lemma queues_ok_distinct: "queues_ok k \<Longrightarrow> cvs k cv = Some c \<Longrightarrow> distinct (q c)"
  unfolding queues_ok_def by blast

lemma queues_ok_sleeping:
  "queues_ok k \<Longrightarrow> cvs k cv = Some c \<Longrightarrow> t \<in> set (q c) \<Longrightarrow> (t, t) \<in> set (sleepers k)"
  unfolding queues_ok_def by blast

lemma queues_ok_disjoint:
  "queues_ok k \<Longrightarrow> cv1 \<noteq> cv2 \<Longrightarrow> cvs k cv1 = Some c1 \<Longrightarrow> cvs k cv2 = Some c2 \<Longrightarrow>
     set (q c1) \<inter> set (q c2) = {}"
  unfolding queues_ok_def by blast

lemma cv_inv_signal_step:
  assumes inv: "cv_inv k" and c: "cvs k cv = Some c" and qc: "q c = w # ws"
  shows "cv_inv (thread_wakeup w (k\<lparr>cvs := (cvs k)(cv \<mapsto> c\<lparr>q := ws\<rparr>)\<rparr>))"
proof -
  let ?k1 = "k\<lparr>cvs := (cvs k)(cv \<mapsto> c\<lparr>q := ws\<rparr>)\<rparr>"
  from inv have s: "sched_ok k" and qo: "queues_ok k" by (simp_all add: cv_inv_def)
  have s': "sched_ok (thread_wakeup w ?k1)"
    by (rule sched_ok_wakeup [OF sched_ok_cvs [OF s c]])
  from queues_ok_distinct [OF qo c] qc have dw: "w \<notin> set ws" and dws: "distinct ws"
    by simp_all
  have mem: "\<And>t. t \<in> set ws \<Longrightarrow> (t, t) \<in> set (sleepers k)"
    using queues_ok_sleeping [OF qo c] qc by simp
  have other: "distinct (q c2) \<and> w \<notin> set (q c2) \<and> set ws \<inter> set (q c2) = {}
      \<and> (\<forall>t \<in> set (q c2). (t, t) \<in> set (sleepers k))"
    if "cv2 \<noteq> cv" and "cvs k cv2 = Some c2" for cv2 c2
  proof -
    from queues_ok_disjoint [OF qo that(1) that(2) c] have "set (q c) \<inter> set (q c2) = {}"
      by blast
    with qc have "w \<notin> set (q c2)" and "set ws \<inter> set (q c2) = {}" by auto
    moreover have "distinct (q c2)" "\<forall>t \<in> set (q c2). (t, t) \<in> set (sleepers k)"
      using queues_ok_distinct [OF qo that(2)] queues_ok_sleeping [OF qo that(2)] by simp_all
    ultimately show ?thesis by simp
  qed
  have disj: "set (q c1) \<inter> set (q c2) = {}"
    if "cv1 \<noteq> cv2" and "cvs k cv1 = Some c1" and "cvs k cv2 = Some c2" for cv1 cv2 c1 c2
    using queues_ok_disjoint [OF qo that] .
  have "queues_ok (thread_wakeup w ?k1)"
    unfolding queues_ok_def
  proof (intro conjI allI impI)
    fix cv' c' assume a: "cvs (thread_wakeup w ?k1) cv' = Some c'"
    show "distinct (q c')"
      using a dws other by (cases "cv' = cv") auto
    show "\<forall>t\<in>set (q c'). (t, t) \<in> set (sleepers (thread_wakeup w ?k1))"
    proof
      fix t assume t: "t \<in> set (q c')"
      show "(t, t) \<in> set (sleepers (thread_wakeup w ?k1))"
      proof (cases "cv' = cv")
        case True
        with a t have "t \<in> set ws" by auto
        with mem dw show ?thesis by auto
      next
        case False
        with a have "cvs k cv' = Some c'" by simp
        from other [OF False this] t show ?thesis by auto
      qed
    qed
  next
    fix cv1 cv2 c1 c2
    assume n: "cv1 \<noteq> cv2" and a1: "cvs (thread_wakeup w ?k1) cv1 = Some c1"
      and a2: "cvs (thread_wakeup w ?k1) cv2 = Some c2"
    show "set (q c1) \<inter> set (q c2) = {}"
    proof (cases "cv1 = cv")
      case True
      with n a1 a2 have "q c1 = ws" and "cv2 \<noteq> cv" and "cvs k cv2 = Some c2" by auto
      with other [of cv2 c2] show ?thesis by simp
    next
      case False
      with a1 have k1: "cvs k cv1 = Some c1" by simp
      show ?thesis
      proof (cases "cv2 = cv")
        case True
        with a2 have "q c2 = ws" by auto
        with other [OF False k1] show ?thesis by auto
      next
        case False
        with a2 have "cvs k cv2 = Some c2" by simp
        from disj [OF n k1 this] show ?thesis .
      qed
    qed
  qed
  with s' show ?thesis by (simp add: cv_inv_def)
qed

lemma cv_inv_enqueue:
  assumes inv: "cv_inv k" and c: "cvs k cv = Some c" and tt: "(t, t) \<in> set (sleepers k)"
    and fresh: "\<And>cv' c'. cvs k cv' = Some c' \<Longrightarrow> t \<notin> set (q c')"
  shows "cv_inv (k\<lparr>cvs := (cvs k)(cv \<mapsto> c\<lparr>q := q c @ [t]\<rparr>)\<rparr>)"
proof -
  let ?k1 = "k\<lparr>cvs := (cvs k)(cv \<mapsto> c\<lparr>q := q c @ [t]\<rparr>)\<rparr>"
  from inv have s: "sched_ok k" and qo: "queues_ok k" by (simp_all add: cv_inv_def)
  have s': "sched_ok ?k1" by (rule sched_ok_cvs [OF s c])
  have old: "distinct (q c2) \<and> t \<notin> set (q c2) \<and> (\<forall>x \<in> set (q c2). (x, x) \<in> set (sleepers k))"
    if "cvs k cv2 = Some c2" for cv2 c2
    using queues_ok_distinct [OF qo that] queues_ok_sleeping [OF qo that] fresh [OF that]
    by simp
  have disj: "set (q c1) \<inter> set (q c2) = {}"
    if "cv1 \<noteq> cv2" and "cvs k cv1 = Some c1" and "cvs k cv2 = Some c2" for cv1 cv2 c1 c2
    using queues_ok_disjoint [OF qo that] .
  have "queues_ok ?k1"
    unfolding queues_ok_def
  proof (intro conjI allI impI)
    fix cv' c' assume a: "cvs ?k1 cv' = Some c'"
    show "distinct (q c')"
      using a old [OF c] old [of cv' c'] by (cases "cv' = cv") auto
    show "\<forall>x\<in>set (q c'). (x, x) \<in> set (sleepers ?k1)"
      using a old [OF c] old [of cv' c'] tt by (cases "cv' = cv") auto
  next
    fix cv1 cv2 c1 c2
    assume n: "cv1 \<noteq> cv2" and a1: "cvs ?k1 cv1 = Some c1" and a2: "cvs ?k1 cv2 = Some c2"
    show "set (q c1) \<inter> set (q c2) = {}"
    proof (cases "cv1 = cv")
      case True
      with n a1 a2 have 1: "q c1 = q c @ [t]" and 2: "cv \<noteq> cv2" and 3: "cvs k cv2 = Some c2"
        by auto
      from disj [OF 2 c 3] old [OF 3] show ?thesis by (simp add: 1)
    next
      case False
      with a1 have k1: "cvs k cv1 = Some c1" by simp
      show ?thesis
      proof (cases "cv2 = cv")
        case True
        with a2 have 1: "q c2 = q c @ [t]" by auto
        from disj [OF False k1 c] old [OF k1] show ?thesis by (auto simp: 1)
      next
        case False
        with a2 have "cvs k cv2 = Some c2" by simp
        from disj [OF n k1 this] show ?thesis .
      qed
    qed
  qed
  with s' show ?thesis by (simp add: cv_inv_def)
qed


lemma P_loop_cv_inv:
  assumes "cv_inv k" and "running k" and "kernel_of (P_loop sem k) = Some k'"
  shows "cv_inv k'"
proof -
  from assms(3) obtain s where s: "sems k sem = Some s"
    by (auto simp: P_loop_def split: option.splits)
  show ?thesis
  proof (cases "count s = 0")
    case True
    with assms(3) s have "k' = thread_sleep sem (In_P sem) k"
      by (simp add: P_loop_def)
    moreover have "cv_inv (thread_sleep sem (In_P sem) k)"
      using assms(1,2) s by (intro cv_inv_sleep) (simp_all add: running_def)
    ultimately show ?thesis by simp
  next
    case False
    with assms(3) s have "k' = k\<lparr>sems := (sems k)(sem \<mapsto> s\<lparr>count := count s - 1\<rparr>)\<rparr>"
      by (simp add: P_loop_def split: if_splits)
    then show ?thesis using cv_inv_sems [OF assms(1) s] by simp
  qed
qed

lemma P_cv_inv:
  assumes "cv_inv k" and "running k" and "kernel_of (P sem k) = Some k'"
  shows "cv_inv k'"
proof -
  from assms(3) have "kernel_of (P_loop sem k) = Some k'"
    by (simp add: P_def split: if_splits)
  with assms(1,2) show ?thesis by (rule P_loop_cv_inv)
qed

lemma V_cv_inv:
  assumes "cv_inv k" and "kernel_of (V sem k) = Some k'"
  shows "cv_inv k'"
proof -
  from assms(2) obtain s where s: "sems k sem = Some s"
    by (auto simp: V_def split: option.splits if_splits)
  let ?k1 = "k\<lparr>sems := (sems k)(sem \<mapsto> s\<lparr>count := count s + 1\<rparr>)\<rparr>"
  from assms(2) s have "k' = thread_wakeup sem ?k1"
    by (simp add: V_def split: if_splits)
  moreover have "cv_inv (thread_wakeup sem ?k1)"
    by (rule cv_inv_wakeup_object [OF cv_inv_sems [OF assms(1) s]]) simp
  ultimately show ?thesis by simp
qed

lemma lock_acquire_loop_cv_inv:
  assumes "cv_inv k" and "running k" and "kernel_of (lock_acquire_loop b k) = Some k'"
  shows "cv_inv k'"
proof -
  from assms(3) obtain l where l: "locks k b = Some l"
    by (auto simp: lock_acquire_loop_def split: option.splits)
  show ?thesis
  proof (cases "status l = 1")
    case True
    with assms(3) l have "k' = thread_sleep b (In_lock_acquire b) k"
      by (simp add: lock_acquire_loop_def)
    moreover have "cv_inv (thread_sleep b (In_lock_acquire b) k)"
      using assms(1,2) l by (intro cv_inv_sleep) (simp_all add: running_def)
    ultimately show ?thesis by simp
  next
    case False
    with assms(3) l have "k' = k\<lparr>locks := (locks k)(b \<mapsto>
        l\<lparr>curthread_with_lock := curthread k, lock_counter := lock_counter l + 1, status := 1\<rparr>)\<rparr>"
      by (simp add: lock_acquire_loop_def)
    then show ?thesis using cv_inv_locks [OF assms(1) l] by simp
  qed
qed

lemma lock_acquire_cv_inv:
  assumes "cv_inv k" and "running k" and "kernel_of (lock_acquire b k) = Some k'"
  shows "cv_inv k'"
proof -
  from assms(3) obtain l where l: "locks k b = Some l"
    by (auto simp: lock_acquire_def split: option.splits if_splits)
  show ?thesis
  proof (cases "curthread k = curthread_with_lock l")
    case True
    with assms(3) l have "k' = k\<lparr>locks := (locks k)(b \<mapsto> l\<lparr>lock_counter := lock_counter l + 1\<rparr>)\<rparr>"
      by (simp add: lock_acquire_def split: if_splits)
    then show ?thesis using cv_inv_locks [OF assms(1) l] by simp
  next
    case False
    with assms(3) l have "kernel_of (lock_acquire_loop b k) = Some k'"
      by (simp add: lock_acquire_def split: if_splits)
    with assms(1,2) show ?thesis by (rule lock_acquire_loop_cv_inv)
  qed
qed

lemma lock_release_cases:
  assumes "kernel_of (lock_release b k) = Some k'"
  obtains "k' = k"
  | l l' where "locks k b = Some l" and "k' = k\<lparr>locks := (locks k)(b \<mapsto> l')\<rparr>"
  | l l' where "locks k b = Some l" and "k' = thread_wakeup b (k\<lparr>locks := (locks k)(b \<mapsto> l')\<rparr>)"
  using assms
  by (auto simp: lock_release_def Let_def split: option.splits if_splits)

lemma lock_release_cv_inv:
  assumes "cv_inv k" and "kernel_of (lock_release b k) = Some k'"
  shows "cv_inv k'"
  using assms(2)
proof (cases rule: lock_release_cases)
  case 1
  with assms(1) show ?thesis by simp
next
  case (2 l l')
  with cv_inv_locks [OF assms(1) 2(1)] show ?thesis by simp
next
  case (3 l l')
  have "cv_inv (thread_wakeup b (k\<lparr>locks := (locks k)(b \<mapsto> l')\<rparr>))"
    by (rule cv_inv_wakeup_object [OF cv_inv_locks [OF assms(1) 3(1)]]) simp
  with 3 show ?thesis by simp
qed

lemma running_locks:
  "running k \<Longrightarrow> locks k b = Some l \<Longrightarrow> running (k\<lparr>locks := (locks k)(b \<mapsto> l')\<rparr>)"
  by (auto simp: running_def is_thread_def)

lemma running_wakeup: "running k \<Longrightarrow> running (thread_wakeup a k)"
  by (auto simp: running_def sleeping_on_def)

lemma lock_release_running:
  assumes "running k" and "kernel_of (lock_release b k) = Some k'"
  shows "running k'"
  using assms(2)
proof (cases rule: lock_release_cases)
  case 1
  with assms(1) show ?thesis by simp
next
  case (2 l l')
  with running_locks [OF assms(1) 2(1)] show ?thesis by simp
next
  case (3 l l')
  with running_wakeup [OF running_locks [OF assms(1) 3(1)]] show ?thesis by simp
qed

lemma cv_signal_cases:
  assumes "kernel_of (cv_signal cv b k) = Some k'"
  obtains c where "cvs k cv = Some c" and "q c = []" and "k' = k"
  | c w ws where "cvs k cv = Some c" and "q c = w # ws"
      and "k' = thread_wakeup w (k\<lparr>cvs := (cvs k)(cv \<mapsto> c\<lparr>q := ws\<rparr>)\<rparr>)"
proof -
  from assms obtain c where c: "cvs k cv = Some c"
    by (auto simp: cv_signal_def lock_do_i_hold_def split: option.splits if_splits)
  show ?thesis
  proof (cases "q c")
    case Nil
    with assms c have "k' = k"
      by (auto simp: cv_signal_def lock_do_i_hold_def q_empty_def split: option.splits if_splits)
    with c Nil that(1) show ?thesis by blast
  next
    case (Cons w ws)
    with assms c have "k' = thread_wakeup w (k\<lparr>cvs := (cvs k)(cv \<mapsto> c\<lparr>q := ws\<rparr>)\<rparr>)"
      by (auto simp: cv_signal_def lock_do_i_hold_def q_empty_def split: option.splits if_splits)
    with c Cons that(2) show ?thesis by blast
  qed
qed

lemma cv_signal_cv_inv:
  assumes "cv_inv k" and "kernel_of (cv_signal cv b k) = Some k'"
  shows "cv_inv k'"
  using assms(2)
proof (cases rule: cv_signal_cases)
  case (1 c)
  with assms(1) show ?thesis by simp
next
  case (2 c w ws)
  with cv_inv_signal_step [OF assms(1) 2(1,2)] show ?thesis by simp
qed

lemma cv_broadcast_loop_cv_inv:
  "cv_inv k \<Longrightarrow> kernel_of (cv_broadcast_loop cv k) = Some k' \<Longrightarrow> cv_inv k'"
proof (induction cv k rule: cv_broadcast_loop.induct)
  case (1 cv k)
  from "1.prems"(2) obtain c where c: "cvs k cv = Some c"
    by (auto simp: cv_broadcast_loop.simps [of cv k] split: option.splits)
  show ?case
  proof (cases "q c")
    case Nil
    with c "1.prems" show ?thesis
      by (simp add: cv_broadcast_loop.simps [of cv k] q_empty_def)
  next
    case (Cons w ws)
    let ?k1 = "thread_wakeup w (k\<lparr>cvs := (cvs k)(cv \<mapsto> c\<lparr>q := ws\<rparr>)\<rparr>)"
    from Cons c "1.prems"(2) have "kernel_of (cv_broadcast_loop cv ?k1) = Some k'"
      by (simp add: cv_broadcast_loop.simps [of cv k] q_empty_def)
    moreover have "cv_inv ?k1"
      by (rule cv_inv_signal_step [OF "1.prems"(1) c Cons])
    ultimately show ?thesis
      using "1.IH" [of c "(w, ws)" w ws] c Cons by (simp add: q_empty_def)
  qed
qed

lemma cv_broadcast_cv_inv:
  assumes "cv_inv k" and "kernel_of (cv_broadcast cv b k) = Some k'"
  shows "cv_inv k'"
proof -
  from assms(2) have "kernel_of (cv_broadcast_loop cv k) = Some k'"
    by (auto simp: cv_broadcast_def lock_do_i_hold_def split: option.splits if_splits)
  with assms(1) show ?thesis by (rule cv_broadcast_loop_cv_inv)
qed

lemma lock_release_cvs:
  "lock_release b (k\<lparr>cvs := X\<rparr>) = Returned () k2 \<Longrightarrow>
     \<exists>k2'. lock_release b k = Returned () k2' \<and> k2 = k2'\<lparr>cvs := X\<rparr>"
  by (auto simp: lock_release_def thread_wakeup_def sleeping_on_def Let_def
      split: option.splits if_splits)

lemma cv_wait_cv_inv:
  assumes inv: "cv_inv k" and run: "running k"
    and w: "kernel_of (cv_wait r cv b k) = Some k'"
  shows "cv_inv k'"
proof -
  let ?t = "curthread k"
  from cv_wait_kernel_of [OF w] obtain c k2 where c: "cvs k cv = Some c"
    and rel: "lock_release b (k\<lparr>cvs := (cvs k)(cv \<mapsto> c\<lparr>q := q c @ [?t]\<rparr>)\<rparr>) = Returned () k2"
    and k': "k' = thread_sleep (curthread k2) (In_cv_wait b) k2"
    by blast
  let ?X = "(cvs k)(cv \<mapsto> c\<lparr>q := q c @ [?t]\<rparr>)"
  from lock_release_cvs [OF rel] obtain k2' where rel': "lock_release b k = Returned () k2'"
    and k2: "k2 = k2'\<lparr>cvs := ?X\<rparr>" by blast
  from rel' have ko: "kernel_of (lock_release b k) = Some k2'" by simp
  have inv2: "cv_inv k2'" by (rule lock_release_cv_inv [OF inv ko])
  have run2: "running k2'" by (rule lock_release_running [OF run ko])
  from lock_release_frame [OF ko] have fr: "cvs k2' = cvs k" "curthread k2' = ?t" by simp_all
  let ?k3 = "thread_sleep ?t (In_cv_wait b) k2'"
  have inv3: "cv_inv ?k3"
    using inv2 run2 fr by (intro cv_inv_sleep) (simp_all add: running_def)
  have c3: "cvs ?k3 cv = Some c" and tt: "(?t, ?t) \<in> set (sleepers ?k3)"
    using c fr by (simp_all add: thread_sleep_def)
  have fresh: "?t \<notin> set (q c')" if "cvs ?k3 cv' = Some c'" for cv' c'
  proof
    assume m: "?t \<in> set (q c')"
    from that fr have "cvs k cv' = Some c'" by (simp add: thread_sleep_def)
    with inv m have "(?t, ?t) \<in> set (sleepers k)"
      by (auto simp: cv_inv_def dest: queues_ok_sleeping)
    with run show False by (force simp: running_def)
  qed
  have "cv_inv (?k3\<lparr>cvs := (cvs ?k3)(cv \<mapsto> c\<lparr>q := q c @ [?t]\<rparr>)\<rparr>)"
    by (rule cv_inv_enqueue [OF inv3 c3 tt fresh])
  moreover have "k' = ?k3\<lparr>cvs := (cvs ?k3)(cv \<mapsto> c\<lparr>q := q c @ [?t]\<rparr>)\<rparr>"
    using k' k2 fr by (simp add: thread_sleep_def)
  ultimately show ?thesis by simp
qed

lemma do_call_cv_inv:
  assumes "cv_inv k" and "running k" and "kernel_of (do_call c k) = Some k'"
  shows "cv_inv k'"
proof (cases c)
  case (Call_P sem)
  with assms P_cv_inv [of k sem k'] show ?thesis by simp
next
  case (Call_V sem)
  with assms V_cv_inv [of k sem k'] show ?thesis by simp
next
  case (Call_lock_acquire b)
  with assms lock_acquire_cv_inv [of k b k'] show ?thesis by simp
next
  case (Call_lock_release b)
  with assms lock_release_cv_inv [of k b k'] show ?thesis by simp
next
  case (Call_lock_do_i_hold b)
  with assms(3) have "k' = k"
    by (auto simp: lock_do_i_hold_def split: option.splits if_splits)
  with assms(1) show ?thesis by simp
next
  case (Call_cv_wait r cv b)
  with assms cv_wait_cv_inv [of k r cv b k'] show ?thesis by simp
next
  case (Call_cv_signal cv b)
  with assms cv_signal_cv_inv [of k cv b k'] show ?thesis by simp
next
  case (Call_cv_broadcast cv b)
  with assms cv_broadcast_cv_inv [of k cv b k'] show ?thesis by simp
qed

lemma resume_cv_inv:
  assumes "cv_inv k" and "running k" and "kernel_of (resume c k) = Some k'"
  shows "cv_inv k'"
proof (cases c)
  case (In_P sem)
  with assms P_loop_cv_inv [of k sem k'] show ?thesis by simp
next
  case (In_lock_acquire b)
  with assms lock_acquire_loop_cv_inv [of k b k'] show ?thesis by simp
next
  case (In_cv_wait b)
  with assms lock_acquire_cv_inv [of k b k'] show ?thesis by simp
qed

lemma fire_cv_inv:
  assumes "cv_inv k" and "enabled e k" and "kernel_of (fire e k) = Some k'"
  shows "cv_inv k'"
proof (cases e)
  case (Call t c)
  with assms have "cv_inv (k\<lparr>curthread := t\<rparr>)" and "running (k\<lparr>curthread := t\<rparr>)"
    and "kernel_of (do_call c (k\<lparr>curthread := t\<rparr>)) = Some k'"
    by (simp_all add: running_def is_thread_def)
  then show ?thesis by (rule do_call_cv_inv)
next
  case (Resume t)
  with assms obtain c where c: "saved k t = Some c" by auto
  let ?k = "k\<lparr>curthread := t, runqueue := removeAll t (runqueue k), saved := (saved k)(t := None)\<rparr>"
  from assms(1) have "cv_inv ?k"
    by (simp add: cv_inv_def sched_ok_def queues_ok_def is_thread_def)
  moreover have "running ?k"
    using Resume assms(1,2) by (auto simp: running_def is_thread_def cv_inv_def sched_ok_def)
  moreover from Resume assms(3) c have "kernel_of (resume c ?k) = Some k'"
    by simp
  ultimately show ?thesis by (rule resume_cv_inv)
qed

lemma exec_cv_inv:
  "cv_inv k0 \<Longrightarrow> exec evs k0 = Some k \<Longrightarrow> cv_inv k"
  by (rule exec_invariant [where I = cv_inv]) (rule fire_cv_inv)

subsection \<open>Effect of signal and broadcast\<close>

lemma cv_signal_empty:
  assumes "locks k lock = Some l" and "curthread_with_lock l = curthread k"
    and "cvs k cv = Some c" and "q c = []"
  shows "cv_signal cv lock k = Returned () k"
  using assms by (simp add: cv_signal_def lock_do_i_hold_def q_empty_def)

lemma cv_signal_not_held:
  assumes "locks k lock = Some l" and "curthread_with_lock l \<noteq> curthread k"
  shows "cv_signal cv lock k = Panic"
  using assms by (simp add: cv_signal_def lock_do_i_hold_def)

lemma cv_signal_head:
  assumes inv: "cv_inv k" and l: "locks k lock = Some l"
    and own: "curthread_with_lock l = curthread k"
    and c: "cvs k cv = Some c" and qc: "q c = w # ws"
  shows "cv_signal cv lock k =
    Returned () (k\<lparr>cvs := (cvs k)(cv \<mapsto> c\<lparr>q := ws\<rparr>),
                   sleepers := filter (\<lambda>(x, a). x \<noteq> w) (sleepers k),
                   runqueue := runqueue k @ [w]\<rparr>)"
proof -
  have w: "w \<in> set (q c)" by (simp add: qc)
  from cv_inv_head(1,2) [OF inv c w]
  have "thread_wakeup w (k\<lparr>cvs := (cvs k)(cv \<mapsto> c\<lparr>q := ws\<rparr>)\<rparr>) =
     k\<lparr>cvs := (cvs k)(cv \<mapsto> c\<lparr>q := ws\<rparr>),
       sleepers := filter (\<lambda>(x, a). x \<noteq> w) (sleepers k),
       runqueue := runqueue k @ [w]\<rparr>"
    by (simp add: thread_wakeup_def sleeping_on_def)
  with l own c qc show ?thesis
    by (simp add: cv_signal_def lock_do_i_hold_def q_empty_def)
qed

lemma repeat_cv_signal:
  "cv_inv k \<Longrightarrow> locks k lock = Some l \<Longrightarrow> curthread_with_lock l = curthread k \<Longrightarrow>
     cvs k cv = Some c \<Longrightarrow>
     repeat n (cv_signal cv lock) k =
       Returned () (k\<lparr>cvs := (cvs k)(cv \<mapsto> c\<lparr>q := drop n (q c)\<rparr>),
                      sleepers := filter (\<lambda>(x, a). x \<notin> set (take n (q c))) (sleepers k),
                      runqueue := runqueue k @ take n (q c)\<rparr>)"
proof (induction n arbitrary: k c)
  case 0
  then have "(cvs k)(cv \<mapsto> c) = cvs k" by (simp add: map_upd_triv)
  then show ?case by simp
next
  case (Suc n)
  show ?case
  proof (cases "q c")
    case Nil
    from cv_signal_empty [OF Suc.prems(2,3,4) Nil] Suc.IH [OF Suc.prems] Nil
    show ?thesis by simp
  next
    case (Cons w ws)
    let ?k1 = "k\<lparr>cvs := (cvs k)(cv \<mapsto> c\<lparr>q := ws\<rparr>),
                   sleepers := filter (\<lambda>(x, a). x \<noteq> w) (sleepers k),
                   runqueue := runqueue k @ [w]\<rparr>"
    have step: "cv_signal cv lock k = Returned () ?k1"
      by (rule cv_signal_head [OF Suc.prems Cons])
    then have "kernel_of (cv_signal cv lock k) = Some ?k1" by simp
    from cv_signal_cv_inv [OF Suc.prems(1) this] have inv1: "cv_inv ?k1" .
    have "repeat (Suc n) (cv_signal cv lock) k = repeat n (cv_signal cv lock) ?k1"
      by (simp add: step)
    also have "\<dots> =
       Returned () (?k1\<lparr>cvs := (cvs ?k1)(cv \<mapsto> (c\<lparr>q := ws\<rparr>)\<lparr>q := drop n (q (c\<lparr>q := ws\<rparr>))\<rparr>),
                      sleepers := filter (\<lambda>(x, a). x \<notin> set (take n (q (c\<lparr>q := ws\<rparr>)))) (sleepers ?k1),
                      runqueue := runqueue ?k1 @ take n (q (c\<lparr>q := ws\<rparr>))\<rparr>)"
      using Suc.prems by (intro Suc.IH [OF inv1]) simp_all
    also have "?k1\<lparr>cvs := (cvs ?k1)(cv \<mapsto> (c\<lparr>q := ws\<rparr>)\<lparr>q := drop n (q (c\<lparr>q := ws\<rparr>))\<rparr>),
                      sleepers := filter (\<lambda>(x, a). x \<notin> set (take n (q (c\<lparr>q := ws\<rparr>)))) (sleepers ?k1),
                      runqueue := runqueue ?k1 @ take n (q (c\<lparr>q := ws\<rparr>))\<rparr>
        = k\<lparr>cvs := (cvs k)(cv \<mapsto> c\<lparr>q := drop (Suc n) (q c)\<rparr>),
             sleepers := filter (\<lambda>(x, a). x \<notin> set (take (Suc n) (q c))) (sleepers k),
             runqueue := runqueue k @ take (Suc n) (q c)\<rparr>"
    proof -
      have "filter (\<lambda>(x, a). x \<notin> set (take n ws)) (filter (\<lambda>(x, a). x \<noteq> w) (sleepers k))
          = filter (\<lambda>(x, a). x \<notin> set (take (Suc n) (w # ws))) (sleepers k)"
        by (auto intro: filter_cong)
      then show ?thesis by (simp add: Cons)
    qed
    finally show ?thesis .
  qed
qed

lemma cv_broadcast_loop_all:
  "cv_inv k \<Longrightarrow> cvs k cv = Some c \<Longrightarrow> q c = ws \<Longrightarrow>
     cv_broadcast_loop cv k =
       Returned () (k\<lparr>cvs := (cvs k)(cv \<mapsto> c\<lparr>q := []\<rparr>),
                      sleepers := filter (\<lambda>(x, a). x \<notin> set ws) (sleepers k),
                      runqueue := runqueue k @ ws\<rparr>)"
proof (induction ws arbitrary: k c)
  case Nil
  then have "c\<lparr>q := []\<rparr> = c" by simp
  with Nil have "(cvs k)(cv \<mapsto> c\<lparr>q := []\<rparr>) = cvs k" by (simp add: map_upd_triv)
  with Nil show ?case
    by (simp add: cv_broadcast_loop.simps [of cv k] q_empty_def)
next
  case (Cons w ws)
  let ?k1 = "k\<lparr>cvs := (cvs k)(cv \<mapsto> c\<lparr>q := ws\<rparr>),
                 sleepers := filter (\<lambda>(x, a). x \<noteq> w) (sleepers k),
                 runqueue := runqueue k @ [w]\<rparr>"
  have wq: "w \<in> set (q c)" by (simp add: Cons.prems(3))
  from cv_inv_head(1,2) [OF Cons.prems(1,2) wq]
  have wk: "thread_wakeup w (k\<lparr>cvs := (cvs k)(cv \<mapsto> c\<lparr>q := ws\<rparr>)\<rparr>) = ?k1"
    by (simp add: thread_wakeup_def sleeping_on_def)
  from cv_inv_signal_step [OF Cons.prems(1,2,3)] wk have inv1: "cv_inv ?k1" by simp
  have "cv_broadcast_loop cv k = cv_broadcast_loop cv ?k1"
    using Cons.prems(2,3) wk by (simp add: cv_broadcast_loop.simps [of cv k] q_empty_def)
  also have "\<dots> = Returned () (?k1\<lparr>cvs := (cvs ?k1)(cv \<mapsto> (c\<lparr>q := ws\<rparr>)\<lparr>q := []\<rparr>),
                      sleepers := filter (\<lambda>(x, a). x \<notin> set ws) (sleepers ?k1),
                      runqueue := runqueue ?k1 @ ws\<rparr>)"
    by (rule Cons.IH [OF inv1]) simp_all
  also have "?k1\<lparr>cvs := (cvs ?k1)(cv \<mapsto> (c\<lparr>q := ws\<rparr>)\<lparr>q := []\<rparr>),
                      sleepers := filter (\<lambda>(x, a). x \<notin> set ws) (sleepers ?k1),
                      runqueue := runqueue ?k1 @ ws\<rparr>
      = k\<lparr>cvs := (cvs k)(cv \<mapsto> c\<lparr>q := []\<rparr>),
           sleepers := filter (\<lambda>(x, a). x \<notin> set (w # ws)) (sleepers k),
           runqueue := runqueue k @ w # ws\<rparr>"
  proof -
    have "filter (\<lambda>(x, a). x \<notin> set ws) (filter (\<lambda>(x, a). x \<noteq> w) (sleepers k))
        = filter (\<lambda>(x, a). x \<notin> set (w # ws)) (sleepers k)"
      by (auto intro: filter_cong)
    then show ?thesis by simp
  qed
  finally show ?case .
qed

subsection \<open>Lock\<close>

text \<open>
  The hold count is a C \<^verbatim>\<open>int\<close> and \<^verbatim>\<open>lock_acquire\<close> adds one to it without a
  test.  Thread 7 creates the lock at 100 and acquires it 2147483648 times; no call sleeps
  and no call stops the kernel.  Afterwards thread 7 owns the lock and the hold count is
  -2147483648: the count is negative between two operations.
\<close>

theorem lock_invariant_overflow:
  "lock_create 100 True ''l'' k_boot = Returned 100 k_free
   \<and> exec (replicate 2147483648 (Call 7 (Call_lock_acquire 100))) k_free
       = Some (k_boot\<lparr>locks := [100 \<mapsto> l_over]\<rparr>)
   \<and> curthread_with_lock l_over = 7
   \<and> sint (lock_counter l_over) = - 2147483648
   \<and> \<not> lock_inv l_over"
proof -
  note e = exec_k_over
  have s: "sint (lock_counter l_over) = - 2147483648"
    by (simp add: l_over_def)
  have o: "curthread_with_lock l_over = 7"
    by (simp add: l_over_def)
  from s have i: "\<not> lock_inv l_over"
    by (simp add: lock_inv_def)
  from create_k_free e o s i show ?thesis by (intro conjI)
qed

text \<open>
  Claim C1.  A lock returned by \<^verbatim>\<open>lock_create\<close> has no owner and a hold count of 0.
  After every schedule of calls by any threads (at every point between two segments, hence
  wherever no operation is in the middle of a critical section) a lock without an owner has
  a hold count of 0; and if no step of the schedule took the hold count from \<open>INT_MAX\<close>
  to \<open>- 2147483648\<close>, the hold count is not negative and is 0 exactly when the lock has
  no owner.  Each step keeps this on its own: \<^verbatim>\<open>lock_acquire\<close>, at its call and where
  it resumes, unless it takes the hold count from \<open>INT_MAX\<close> to \<open>- 2147483648\<close>, and
  \<^verbatim>\<open>lock_release\<close>, on both branches, lead from a lock with this property to a lock
  with this property, for every calling thread.
\<close>

theorem lock_invariant:
  assumes "lock_create p dup_ok nm k0 = Returned a k1" and "a \<noteq> NULL"
    and "exec evs k1 = Some k"
  shows "(\<exists>l. locks k1 a = Some l \<and> curthread_with_lock l = NULL \<and> lock_counter l = 0)
       \<and> (\<exists>l. locks k a = Some l \<and> (curthread_with_lock l = NULL \<longrightarrow> lock_counter l = 0))
       \<and> (no_overflow a evs k1 \<longrightarrow> (\<exists>l. locks k a = Some l \<and> lock_inv l))
       \<and> (curthread ka \<noteq> NULL \<and> locks ka b = Some lb \<and> lock_inv lb
            \<and> (\<not> overflows b ka ka'
                 \<and> (kernel_of (lock_acquire b ka) = Some ka'
                      \<or> kernel_of (resume (In_lock_acquire b) ka) = Some ka')
                \<or> kernel_of (lock_release b ka) = Some ka')
           \<longrightarrow> (\<exists>lb'. locks ka' b = Some lb' \<and> lock_inv lb'))"
proof (intro conjI)
  from assms(1,2) show "\<exists>l. locks k1 a = Some l \<and> curthread_with_lock l = NULL \<and> lock_counter l = 0"
    by (auto simp: lock_create_def split: if_splits)
next
  have "lock_shape_at a k"
    by (rule exec_created_lock_shape [OF assms])
  then show "\<exists>l. locks k a = Some l \<and> (curthread_with_lock l = NULL \<longrightarrow> lock_counter l = 0)"
    by (auto simp: lock_shape_at_def lock_shape_def)
next
  show "no_overflow a evs k1 \<longrightarrow> (\<exists>l. locks k a = Some l \<and> lock_inv l)"
  proof
    assume "no_overflow a evs k1"
    with lock_create_lock_ok [OF assms(1,2)] have "lock_ok_at a k"
      using assms(3) by (rule exec_lock_ok)
    then show "\<exists>l. locks k a = Some l \<and> lock_inv l"
      by (auto simp: lock_ok_at_def lock_ok_def lock_inv_def)
  qed
next
  show "curthread ka \<noteq> NULL \<and> locks ka b = Some lb \<and> lock_inv lb
            \<and> (\<not> overflows b ka ka'
                 \<and> (kernel_of (lock_acquire b ka) = Some ka'
                      \<or> kernel_of (resume (In_lock_acquire b) ka) = Some ka')
                \<or> kernel_of (lock_release b ka) = Some ka')
           \<longrightarrow> (\<exists>lb'. locks ka' b = Some lb' \<and> lock_inv lb')"
  proof (intro impI, elim conjE disjE)
    assume t: "curthread ka \<noteq> NULL" and l: "locks ka b = Some lb" and i: "lock_inv lb"
      and m: "\<not> overflows b ka ka'"
      and r: "kernel_of (lock_acquire b ka) = Some ka'"
    from lock_acquire_lock_step [OF r l] obtain lb' where l': "locks ka' b = Some lb'"
      and s: "lock_step (curthread ka) lb lb'" by blast
    from m l l' have "\<not> (lock_counter lb = INT_MAX \<and> lock_counter lb' = INT_MAX + 1)"
      by (simp add: overflows_def)
    from lock_step_inv [OF t i this s] l'
    show "\<exists>lb'. locks ka' b = Some lb' \<and> lock_inv lb'" by simp
  next
    assume t: "curthread ka \<noteq> NULL" and l: "locks ka b = Some lb" and i: "lock_inv lb"
      and m: "\<not> overflows b ka ka'"
      and r: "kernel_of (resume (In_lock_acquire b) ka) = Some ka'"
    from resume_lock_step [OF r l] obtain lb' where l': "locks ka' b = Some lb'"
      and s: "lock_step (curthread ka) lb lb'" by blast
    from m l l' have "\<not> (lock_counter lb = INT_MAX \<and> lock_counter lb' = INT_MAX + 1)"
      by (simp add: overflows_def)
    from lock_step_inv [OF t i this s] l'
    show "\<exists>lb'. locks ka' b = Some lb' \<and> lock_inv lb'" by simp
  next
    assume t: "curthread ka \<noteq> NULL" and l: "locks ka b = Some lb" and i: "lock_inv lb"
      and r: "kernel_of (lock_release b ka) = Some ka'"
    show "\<exists>lb'. locks ka' b = Some lb' \<and> lock_inv lb'"
    proof (cases "curthread ka = curthread_with_lock lb")
      case False
      with l i r show ?thesis
        by (auto simp: lock_release_def split: if_splits)
    next
      case True
      with t i have "lock_counter lb \<noteq> 0" by (auto simp: lock_inv_def)
      then have "sint (lock_counter lb) \<noteq> 0" by (simp add: sint_zero_iff)
      with i have "0 < sint (lock_counter lb)" by (simp add: lock_inv_def)
      from sint_dec [OF this] this have "0 \<le> sint (lock_counter lb - 1)" by simp
      with True t l i r show ?thesis
        by (auto simp: lock_release_def thread_wakeup_def Let_def lock_inv_def split: if_splits)
    qed
  qed
qed

theorem lock_invariant_witness:
  "lock_create 100 True ''l'' k_boot = Returned 100 k_free
   \<and> exec [Call 7 (Call_lock_acquire 100), Call 7 (Call_lock_acquire 100),
            Call 8 (Call_lock_acquire 100), Call 7 (Call_lock_release 100)] k_free
       = Some (k_wait8\<lparr>curthread := 7, locks := [100 \<mapsto> l_held]\<rparr>)
   \<and> no_overflow 100 [Call 7 (Call_lock_acquire 100), Call 7 (Call_lock_acquire 100),
            Call 8 (Call_lock_acquire 100), Call 7 (Call_lock_release 100)] k_free
   \<and> lock_inv l_held
   \<and> curthread k_free \<noteq> NULL \<and> locks k_free 100 = Some l_free \<and> lock_inv l_free
   \<and> \<not> overflows 100 k_free (k_boot\<lparr>locks := [100 \<mapsto> l_held]\<rparr>)
   \<and> kernel_of (lock_acquire 100 k_free) = Some (k_boot\<lparr>locks := [100 \<mapsto> l_held]\<rparr>)"
proof -
  note c = create_k_free and n = not_null_100 and e = exec_k_wait8_rel
  have nf: "no_overflow 100 [Call 7 (Call_lock_acquire 100), Call 7 (Call_lock_acquire 100),
            Call 8 (Call_lock_acquire 100), Call 7 (Call_lock_release 100)] k_free"
    by (simp add: op_defs state_defs overflows_def INT_MAX_def)
  have f: "curthread k_free \<noteq> NULL \<and> locks k_free 100 = Some l_free \<and> lock_inv l_free
      \<and> \<not> overflows 100 k_free (k_boot\<lparr>locks := [100 \<mapsto> l_held]\<rparr>)"
    by (simp add: state_defs lock_inv_def NULL_def overflows_def INT_MAX_def)
  have a: "kernel_of (lock_acquire 100 k_free) = Some (k_boot\<lparr>locks := [100 \<mapsto> l_held]\<rparr>)"
    by (simp add: op_defs state_defs)
  from lock_invariant [OF c n e, of k_free 100 l_free "k_boot\<lparr>locks := [100 \<mapsto> l_held]\<rparr>"]
    c e f a nf
  show ?thesis
    by simp
qed

text \<open>
  The hold count is a C \<^verbatim>\<open>int\<close>.  Thread 7 creates the lock at 100 and acquires it
  2147483647 times, so that it owns the lock with a hold count of \<open>INT_MAX\<close>.  Its next
  \<^verbatim>\<open>lock_acquire\<close> returns at once, and leaves a hold count of -2147483648, which is
  not one more than 2147483647.
\<close>

theorem lock_acquire_overflow:
  "lock_create 100 True ''l'' k_boot = Returned 100 k_free
   \<and> exec (replicate 2147483647 (Call 7 (Call_lock_acquire 100))) k_free
       = Some (k_boot\<lparr>locks := [100 \<mapsto> l_full]\<rparr>)
   \<and> curthread (k_boot\<lparr>locks := [100 \<mapsto> l_full]\<rparr>) = curthread_with_lock l_full
   \<and> sint (lock_counter l_full) = 2147483647
   \<and> lock_acquire 100 (k_boot\<lparr>locks := [100 \<mapsto> l_full]\<rparr>)
       = Returned () (k_boot\<lparr>locks := [100 \<mapsto> l_over]\<rparr>)
   \<and> sint (lock_counter l_over) = - 2147483648
   \<and> sint (lock_counter l_over) \<noteq> sint (lock_counter l_full) + 1"
proof -
  note e = exec_k_full
  have o: "curthread (k_boot\<lparr>locks := [100 \<mapsto> l_full]\<rparr>) = curthread_with_lock l_full"
    by (simp add: k_boot_def l_full_def)
  have f: "sint (lock_counter l_full) = 2147483647"
    by (simp add: l_full_def)
  have a: "lock_acquire 100 (k_boot\<lparr>locks := [100 \<mapsto> l_full]\<rparr>)
       = Returned () (k_boot\<lparr>locks := [100 \<mapsto> l_over]\<rparr>)"
    by (simp add: lock_acquire_def k_boot_def l_full_def l_over_def NULL_def)
  have s: "sint (lock_counter l_over) = - 2147483648"
    by (simp add: l_over_def)
  from f s have d: "sint (lock_counter l_over) \<noteq> sint (lock_counter l_full) + 1"
    by simp
  from create_k_free e o f a s d show ?thesis by (intro conjI)
qed

text \<open>
  Claim C2.  In every state that a schedule reaches from the creation of the lock, a call of
  \<^verbatim>\<open>lock_acquire\<close> by thread \<open>t\<close> does this.  If \<open>t\<close> is the owner, it adds one to
  the hold count as C \<^verbatim>\<open>int\<close> arithmetic does and returns at once; owner and status
  stay; the hold count is then one more than before when it was below \<open>INT_MAX\<close>, and
  -2147483648 when it was \<open>INT_MAX\<close>.  Otherwise, while the lock is held, the caller goes
  to sleep on the address of the lock, and checks again where it resumes; and when the lock
  is free, the caller becomes the owner, with a hold count of 1 and the lock marked held.
\<close>

theorem lock_acquire_behaviour:
  assumes "lock_create p dup_ok nm k0 = Returned lock k1" and "lock \<noteq> NULL"
    and "exec evs k1 = Some k'" and "k = k'\<lparr>curthread := t\<rparr>"
    and "locks k lock = Some l"
  shows "(t = curthread_with_lock l \<longrightarrow>
          lock_acquire lock k =
            Returned () (k\<lparr>locks := (locks k)(lock \<mapsto> l\<lparr>lock_counter := lock_counter l + 1\<rparr>)\<rparr>)
          \<and> (lock_counter l \<noteq> INT_MAX \<longrightarrow>
                sint (lock_counter l + 1) = sint (lock_counter l) + 1)
          \<and> (lock_counter l = INT_MAX \<longrightarrow> sint (lock_counter l + 1) = - 2147483648))
     \<and> (t \<noteq> curthread_with_lock l \<and> status l = 1 \<longrightarrow>
          lock_acquire lock k =
            Slept (k\<lparr>sleepers := sleepers k @ [(t, lock)],
                     saved := (saved k)(t \<mapsto> In_lock_acquire lock)\<rparr>))
     \<and> (t \<noteq> curthread_with_lock l \<and> status l \<noteq> 1 \<longrightarrow>
          lock_acquire lock k =
            Returned () (k\<lparr>locks := (locks k)(lock \<mapsto>
              l\<lparr>curthread_with_lock := t, lock_counter := 1, status := 1\<rparr>)\<rparr>))
     \<and> (status l = 1 \<longrightarrow>
          resume (In_lock_acquire lock) k =
            Slept (k\<lparr>sleepers := sleepers k @ [(t, lock)],
                     saved := (saved k)(t \<mapsto> In_lock_acquire lock)\<rparr>))
     \<and> (status l \<noteq> 1 \<longrightarrow>
          resume (In_lock_acquire lock) k =
            Returned () (k\<lparr>locks := (locks k)(lock \<mapsto>
              l\<lparr>curthread_with_lock := t, lock_counter := 1, status := 1\<rparr>)\<rparr>))"
proof -
  from exec_created_lock_shape [OF assms(1,2,3)] assms(5)
  have ok: "lock_shape l"
    by (auto simp: lock_shape_at_def assms(4))
  note l = assms(5)
  have t: "curthread k = t" by (simp add: assms(4))
  have "t = curthread_with_lock l \<longrightarrow>
          lock_acquire lock k =
            Returned () (k\<lparr>locks := (locks k)(lock \<mapsto> l\<lparr>lock_counter := lock_counter l + 1\<rparr>)\<rparr>)
          \<and> (lock_counter l \<noteq> INT_MAX \<longrightarrow>
                sint (lock_counter l + 1) = sint (lock_counter l) + 1)
          \<and> (lock_counter l = INT_MAX \<longrightarrow> sint (lock_counter l + 1) = - 2147483648)"
    using l t assms(2) by (simp add: lock_acquire_def sint_inc sint_inc_overflow)
  moreover have "t \<noteq> curthread_with_lock l \<and> status l = 1 \<longrightarrow>
          lock_acquire lock k =
            Slept (k\<lparr>sleepers := sleepers k @ [(t, lock)],
                     saved := (saved k)(t \<mapsto> In_lock_acquire lock)\<rparr>)"
    using l t assms(2) by (simp add: lock_acquire_def lock_acquire_loop_def thread_sleep_def)
  moreover have "t \<noteq> curthread_with_lock l \<and> status l \<noteq> 1 \<longrightarrow>
          lock_acquire lock k =
            Returned () (k\<lparr>locks := (locks k)(lock \<mapsto>
              l\<lparr>curthread_with_lock := t, lock_counter := 1, status := 1\<rparr>)\<rparr>)"
    using l t ok assms(2) by (auto simp: lock_acquire_def lock_acquire_loop_def lock_shape_def)
  moreover have "status l = 1 \<longrightarrow>
          resume (In_lock_acquire lock) k =
            Slept (k\<lparr>sleepers := sleepers k @ [(t, lock)],
                     saved := (saved k)(t \<mapsto> In_lock_acquire lock)\<rparr>)"
    using l t by (simp add: lock_acquire_loop_def thread_sleep_def)
  moreover have "status l \<noteq> 1 \<longrightarrow>
          resume (In_lock_acquire lock) k =
            Returned () (k\<lparr>locks := (locks k)(lock \<mapsto>
              l\<lparr>curthread_with_lock := t, lock_counter := 1, status := 1\<rparr>)\<rparr>)"
    using l t ok by (auto simp: lock_acquire_loop_def lock_shape_def)
  ultimately show ?thesis by blast
qed

theorem lock_acquire_behaviour_witness:
  "lock_create 100 True ''l'' k_boot = Returned 100 k_free
   \<and> exec [] k_free = Some k_free
   \<and> lock_acquire 100 k_free = Returned () (k_boot\<lparr>locks := [100 \<mapsto> l_held]\<rparr>)
   \<and> resume (In_lock_acquire 100) k_free = Returned () (k_boot\<lparr>locks := [100 \<mapsto> l_held]\<rparr>)
   \<and> exec [Call 7 (Call_lock_acquire 100)] k_free = Some (k_boot\<lparr>locks := [100 \<mapsto> l_held]\<rparr>)
   \<and> lock_acquire 100 (k_boot\<lparr>locks := [100 \<mapsto> l_held]\<rparr>)
        = Returned () (k_boot\<lparr>locks := [100 \<mapsto> l_held2]\<rparr>)
   \<and> lock_counter l_held \<noteq> INT_MAX
   \<and> sint (lock_counter l_held + 1) = sint (lock_counter l_held) + 1
   \<and> lock_acquire 100 (k_boot\<lparr>curthread := 8, locks := [100 \<mapsto> l_held]\<rparr>)
        = Slept (k_boot\<lparr>curthread := 8, locks := [100 \<mapsto> l_held], sleepers := [(8, 100)],
                       saved := [8 \<mapsto> In_lock_acquire 100]\<rparr>)
   \<and> resume (In_lock_acquire 100) (k_boot\<lparr>curthread := 8, locks := [100 \<mapsto> l_held]\<rparr>)
        = Slept (k_boot\<lparr>curthread := 8, locks := [100 \<mapsto> l_held], sleepers := [(8, 100)],
                       saved := [8 \<mapsto> In_lock_acquire 100]\<rparr>)
   \<and> exec (replicate 2147483647 (Call 7 (Call_lock_acquire 100))) k_free
        = Some (k_boot\<lparr>locks := [100 \<mapsto> l_full]\<rparr>)
   \<and> lock_counter l_full = INT_MAX
   \<and> sint (lock_counter l_full + 1) = - 2147483648"
proof -
  note c = create_k_free and n = not_null_100
  have e0: "exec [] k_free = Some k_free" by simp
  have k0: "k_free = k_free\<lparr>curthread := 7\<rparr>" by (simp add: state_defs)
  have l0: "locks k_free 100 = Some l_free" by (simp add: state_defs)
  note i1 = lock_acquire_behaviour [OF c n e0 k0 l0]
  note e1 = exec_k_held1
  have k1: "k_boot\<lparr>locks := [100 \<mapsto> l_held]\<rparr> = (k_boot\<lparr>locks := [100 \<mapsto> l_held]\<rparr>)\<lparr>curthread := 7\<rparr>"
    by (simp add: state_defs)
  have l1: "locks (k_boot\<lparr>locks := [100 \<mapsto> l_held]\<rparr>) 100 = Some l_held" by simp
  note i2 = lock_acquire_behaviour [OF c n e1 k1 l1]
  have k2: "k_boot\<lparr>curthread := 8, locks := [100 \<mapsto> l_held]\<rparr> = (k_boot\<lparr>locks := [100 \<mapsto> l_held]\<rparr>)\<lparr>curthread := 8\<rparr>"
    by (simp add: state_defs)
  have l2: "locks (k_boot\<lparr>curthread := 8, locks := [100 \<mapsto> l_held]\<rparr>) 100 = Some l_held" by simp
  note i3 = lock_acquire_behaviour [OF c n e1 k2 l2]
  from i1 i2 i3 c e0 e1 have a: "lock_create 100 True ''l'' k_boot = Returned 100 k_free
   \<and> exec [] k_free = Some k_free
   \<and> lock_acquire 100 k_free = Returned () (k_boot\<lparr>locks := [100 \<mapsto> l_held]\<rparr>)
   \<and> resume (In_lock_acquire 100) k_free = Returned () (k_boot\<lparr>locks := [100 \<mapsto> l_held]\<rparr>)
   \<and> exec [Call 7 (Call_lock_acquire 100)] k_free = Some (k_boot\<lparr>locks := [100 \<mapsto> l_held]\<rparr>)
   \<and> lock_acquire 100 (k_boot\<lparr>locks := [100 \<mapsto> l_held]\<rparr>)
        = Returned () (k_boot\<lparr>locks := [100 \<mapsto> l_held2]\<rparr>)
   \<and> lock_counter l_held \<noteq> INT_MAX
   \<and> sint (lock_counter l_held + 1) = sint (lock_counter l_held) + 1
   \<and> lock_acquire 100 (k_boot\<lparr>curthread := 8, locks := [100 \<mapsto> l_held]\<rparr>)
        = Slept (k_boot\<lparr>curthread := 8, locks := [100 \<mapsto> l_held], sleepers := [(8, 100)],
                       saved := [8 \<mapsto> In_lock_acquire 100]\<rparr>)
   \<and> resume (In_lock_acquire 100) (k_boot\<lparr>curthread := 8, locks := [100 \<mapsto> l_held]\<rparr>)
        = Slept (k_boot\<lparr>curthread := 8, locks := [100 \<mapsto> l_held], sleepers := [(8, 100)],
                       saved := [8 \<mapsto> In_lock_acquire 100]\<rparr>)"
    by (simp add: state_defs NULL_def INT_MAX_def)
  note e4 = exec_k_full
  have k4: "k_boot\<lparr>locks := [100 \<mapsto> l_full]\<rparr> = (k_boot\<lparr>locks := [100 \<mapsto> l_full]\<rparr>)\<lparr>curthread := 7\<rparr>"
    by (simp add: state_defs)
  have l4: "locks (k_boot\<lparr>locks := [100 \<mapsto> l_full]\<rparr>) 100 = Some l_full" by simp
  note i4 = lock_acquire_behaviour [OF c n e4 k4 l4]
  have m: "lock_counter l_full = INT_MAX" by (simp add: l_full_def INT_MAX_def)
  have o: "7 = curthread_with_lock l_full" by (simp add: l_full_def)
  from mp [OF conjunct1 [OF i4] o] m
  have b: "sint (lock_counter l_full + 1) = - 2147483648" by blast
  from a e4 m b show ?thesis by (elim conjE, intro conjI)
qed

text \<open>
  The hold count is a C \<^verbatim>\<open>int\<close>.  Thread 7 creates the lock at 100 and acquires it
  4294967297 times; the hold count has then wrapped around to 1.  One
  \<^verbatim>\<open>lock_release\<close> by thread 7 frees the lock, and \<^verbatim>\<open>lock_acquire\<close> by thread 8
  returns with thread 8 as the owner, with 4294967296 releases still missing.  And where
  thread 7 holds
  the lock with the hold count of -2147483648 that 2147483648 acquisitions leave, its
  \<^verbatim>\<open>lock_release\<close> leaves a hold count of 2147483647: not one less, and not a count
  that stayed positive.
\<close>

theorem lock_release_wrapped:
  "lock_create 100 True ''l'' k_boot = Returned 100 k_free
   \<and> exec (replicate 4294967297 (Call 7 (Call_lock_acquire 100))) k_free
       = Some (k_boot\<lparr>locks := [100 \<mapsto> l_held]\<rparr>)
   \<and> curthread (k_boot\<lparr>locks := [100 \<mapsto> l_held]\<rparr>) = curthread_with_lock l_held
   \<and> lock_release 100 (k_boot\<lparr>locks := [100 \<mapsto> l_held]\<rparr>) = Returned () k_free
   \<and> lock_acquire 100 (k_free\<lparr>curthread := 8\<rparr>)
       = Returned () (k_boot\<lparr>curthread := 8,
                        locks := [100 \<mapsto> l_held\<lparr>curthread_with_lock := 8\<rparr>]\<rparr>)
   \<and> exec (replicate 4294967297 (Call 7 (Call_lock_acquire 100))
            @ [Call 7 (Call_lock_release 100), Call 8 (Call_lock_acquire 100)]) k_free
       = Some (k_boot\<lparr>curthread := 8,
                 locks := [100 \<mapsto> l_held\<lparr>curthread_with_lock := 8\<rparr>]\<rparr>)
   \<and> exec (replicate 2147483648 (Call 7 (Call_lock_acquire 100))) k_free
       = Some (k_boot\<lparr>locks := [100 \<mapsto> l_over]\<rparr>)
   \<and> curthread (k_boot\<lparr>locks := [100 \<mapsto> l_over]\<rparr>) = curthread_with_lock l_over
   \<and> sint (lock_counter l_over) = - 2147483648
   \<and> lock_release 100 (k_boot\<lparr>locks := [100 \<mapsto> l_over]\<rparr>)
       = Returned () (k_boot\<lparr>locks := [100 \<mapsto> l_full]\<rparr>)
   \<and> sint (lock_counter l_full) = 2147483647"
proof -
  note e = exec_k_wrapped
  have o: "curthread (k_boot\<lparr>locks := [100 \<mapsto> l_held]\<rparr>) = curthread_with_lock l_held"
    by (simp add: state_defs)
  have r: "lock_release 100 (k_boot\<lparr>locks := [100 \<mapsto> l_held]\<rparr>) = Returned () k_free"
    by (simp add: op_defs state_defs)
  have a: "lock_acquire 100 (k_free\<lparr>curthread := 8\<rparr>)
       = Returned () (k_boot\<lparr>curthread := 8,
                        locks := [100 \<mapsto> l_held\<lparr>curthread_with_lock := 8\<rparr>]\<rparr>)"
    by (simp add: op_defs state_defs)
  have t: "exec [Call 7 (Call_lock_release 100), Call 8 (Call_lock_acquire 100)]
             (k_boot\<lparr>locks := [100 \<mapsto> l_held]\<rparr>)
       = Some (k_boot\<lparr>curthread := 8,
                 locks := [100 \<mapsto> l_held\<lparr>curthread_with_lock := 8\<rparr>]\<rparr>)"
    by (simp add: op_defs state_defs)
  have x: "exec (replicate 4294967297 (Call 7 (Call_lock_acquire 100))
            @ [Call 7 (Call_lock_release 100), Call 8 (Call_lock_acquire 100)]) k_free
       = Some (k_boot\<lparr>curthread := 8,
                 locks := [100 \<mapsto> l_held\<lparr>curthread_with_lock := 8\<rparr>]\<rparr>)"
    unfolding exec_append e using t by simp
  note e2 = exec_k_over
  have o2: "curthread (k_boot\<lparr>locks := [100 \<mapsto> l_over]\<rparr>) = curthread_with_lock l_over"
    by (simp add: state_defs)
  have s2: "sint (lock_counter l_over) = - 2147483648"
    by (simp add: l_over_def)
  have r2: "lock_release 100 (k_boot\<lparr>locks := [100 \<mapsto> l_over]\<rparr>)
       = Returned () (k_boot\<lparr>locks := [100 \<mapsto> l_full]\<rparr>)"
    by (simp add: op_defs state_defs)
  have s3: "sint (lock_counter l_full) = 2147483647"
    by (simp add: l_full_def)
  from create_k_free e o r a x e2 o2 s2 r2 s3 show ?thesis by (intro conjI)
qed

text \<open>
  Claim C3.  In every state that a schedule reaches from the creation of the lock, a call of
  \<^verbatim>\<open>lock_release\<close> by the owner \<open>t\<close> takes one from the hold count as C
  \<^verbatim>\<open>int\<close> arithmetic does.  From a hold count of 1 the lock becomes free, with no owner,
  and every thread sleeping on the address of the lock moves to the run queue.  From any
  other hold count the caller stays the owner of a held lock and the sleeping threads and
  the run queue stay as they are; if the hold count was positive, it was larger than 1 and
  is now one less.  Hence with a positive hold count of \<open>n\<close>, after fewer than \<open>n\<close>
  releases another thread's \<^verbatim>\<open>lock_acquire\<close> still goes to sleep, and after \<open>n\<close>
  releases it returns as the new owner.  And \<open>m\<close> more acquisitions by the owner that
  take the hold count to no more than \<open>INT_MAX\<close> add \<open>m\<close> to it, so that \<open>m\<close> more
  releases are needed.
\<close>

theorem lock_release_owner:
  assumes "lock_create p dup_ok nm k0 = Returned lock k1" and "lock \<noteq> NULL"
    and "exec evs k1 = Some k'" and "k = k'\<lparr>curthread := t\<rparr>"
    and "locks k lock = Some l" and "curthread_with_lock l = t" and "t \<noteq> NULL"
  shows "(lock_counter l = 1 \<longrightarrow>
          lock_release lock k =
            Returned () (k\<lparr>locks := (locks k)(lock \<mapsto>
                             l\<lparr>lock_counter := 0, curthread_with_lock := NULL, status := 0\<rparr>),
                           sleepers := filter (\<lambda>(x, a). a \<noteq> lock) (sleepers k),
                           runqueue := runqueue k @ map fst (filter (\<lambda>(x, a). a = lock) (sleepers k))\<rparr>))
       \<and> (lock_counter l \<noteq> 1 \<longrightarrow>
            status l = 1 \<and>
            lock_release lock k =
              Returned () (k\<lparr>locks := (locks k)(lock \<mapsto> l\<lparr>lock_counter := lock_counter l - 1\<rparr>)\<rparr>)
            \<and> (0 < sint (lock_counter l) \<longrightarrow>
                  1 < sint (lock_counter l)
                  \<and> sint (lock_counter l - 1) = sint (lock_counter l) - 1))
       \<and> (int j < sint (lock_counter l) \<and> u \<noteq> t \<longrightarrow>
            (\<exists>kj. repeat j (lock_release lock) k = Returned () kj
               \<and> lock_acquire lock (kj\<lparr>curthread := u\<rparr>) =
                   Slept (kj\<lparr>curthread := u, sleepers := sleepers kj @ [(u, lock)],
                            saved := (saved kj)(u \<mapsto> In_lock_acquire lock)\<rparr>)))
       \<and> (0 < sint (lock_counter l) \<and> u \<noteq> NULL \<longrightarrow>
            (\<exists>kn. repeat (nat (sint (lock_counter l))) (lock_release lock) k = Returned () kn
               \<and> lock_acquire lock (kn\<lparr>curthread := u\<rparr>) =
                   Returned () (kn\<lparr>curthread := u, locks := (locks kn)(lock \<mapsto>
                     l\<lparr>curthread_with_lock := u, lock_counter := 1, status := 1\<rparr>)\<rparr>)))
       \<and> (0 < sint (lock_counter l) \<and> int m + sint (lock_counter l) \<le> 2147483647
            \<and> u \<noteq> t \<and> u \<noteq> NULL \<longrightarrow>
            (\<exists>km lm. repeat m (lock_acquire lock) k = Returned () km
               \<and> locks km lock = Some lm \<and> curthread_with_lock lm = t
               \<and> sint (lock_counter lm) = sint (lock_counter l) + int m
               \<and> (int j < sint (lock_counter lm) \<longrightarrow>
                    (\<exists>kj. repeat j (lock_release lock) km = Returned () kj
                       \<and> lock_acquire lock (kj\<lparr>curthread := u\<rparr>) =
                           Slept (kj\<lparr>curthread := u, sleepers := sleepers kj @ [(u, lock)],
                                    saved := (saved kj)(u \<mapsto> In_lock_acquire lock)\<rparr>)))
               \<and> (\<exists>kn. repeat (nat (sint (lock_counter lm))) (lock_release lock) km
                           = Returned () kn
                       \<and> lock_acquire lock (kn\<lparr>curthread := u\<rparr>) =
                           Returned () (kn\<lparr>curthread := u, locks := (locks kn)(lock \<mapsto>
                             lm\<lparr>curthread_with_lock := u, lock_counter := 1, status := 1\<rparr>)\<rparr>))))"
proof -
  from exec_created_lock_shape [OF assms(1,2,3)] assms(5)
  have ok: "lock_shape l"
    by (auto simp: lock_shape_at_def assms(4))
  have t: "curthread k = t" by (simp add: assms(4))
  from ok assms(6,7) have held: "status l = 1"
    by (auto simp: lock_shape_def)
  have own: "curthread_with_lock l = curthread k" by (simp add: t assms(6))
  have a: "lock_counter l = 1 \<longrightarrow>
          lock_release lock k =
            Returned () (k\<lparr>locks := (locks k)(lock \<mapsto>
                             l\<lparr>lock_counter := 0, curthread_with_lock := NULL, status := 0\<rparr>),
                           sleepers := filter (\<lambda>(x, a). a \<noteq> lock) (sleepers k),
                           runqueue := runqueue k @ map fst (filter (\<lambda>(x, a). a = lock) (sleepers k))\<rparr>)"
    using release_last [OF assms(2,5) own] by simp
  have b: "lock_counter l \<noteq> 1 \<longrightarrow>
            status l = 1 \<and>
            lock_release lock k =
              Returned () (k\<lparr>locks := (locks k)(lock \<mapsto> l\<lparr>lock_counter := lock_counter l - 1\<rparr>)\<rparr>)
            \<and> (0 < sint (lock_counter l) \<longrightarrow>
                  1 < sint (lock_counter l)
                  \<and> sint (lock_counter l - 1) = sint (lock_counter l) - 1)"
  proof (intro impI conjI)
    show "status l = 1" by (rule held)
  next
    assume "lock_counter l \<noteq> 1"
    then show "lock_release lock k =
              Returned () (k\<lparr>locks := (locks k)(lock \<mapsto> l\<lparr>lock_counter := lock_counter l - 1\<rparr>)\<rparr>)"
      using assms(2,5) own by (simp add: lock_release_def)
  next
    assume "lock_counter l \<noteq> 1" and p: "0 < sint (lock_counter l)"
    from sint_eq_iff [of "lock_counter l" 1] \<open>lock_counter l \<noteq> 1\<close>
    have "sint (lock_counter l) \<noteq> 1" by simp
    with p show "1 < sint (lock_counter l)" by simp
  next
    assume "0 < sint (lock_counter l)"
    then show "sint (lock_counter l - 1) = sint (lock_counter l) - 1" by (rule sint_dec)
  qed
  have c: "int j < sint (lock_counter l) \<and> u \<noteq> t \<longrightarrow>
            (\<exists>kj. repeat j (lock_release lock) k = Returned () kj
               \<and> lock_acquire lock (kj\<lparr>curthread := u\<rparr>) =
                   Slept (kj\<lparr>curthread := u, sleepers := sleepers kj @ [(u, lock)],
                            saved := (saved kj)(u \<mapsto> In_lock_acquire lock)\<rparr>))"
    using releases_then_sleep [OF assms(2,5) own held, of j u] t by simp
  have d: "0 < sint (lock_counter l) \<and> u \<noteq> NULL \<longrightarrow>
            (\<exists>kn. repeat (nat (sint (lock_counter l))) (lock_release lock) k = Returned () kn
               \<and> lock_acquire lock (kn\<lparr>curthread := u\<rparr>) =
                   Returned () (kn\<lparr>curthread := u, locks := (locks kn)(lock \<mapsto>
                     l\<lparr>curthread_with_lock := u, lock_counter := 1, status := 1\<rparr>)\<rparr>))"
    using releases_then_acquire [OF assms(2,5) own, of u] by simp
  have e: "0 < sint (lock_counter l) \<and> int m + sint (lock_counter l) \<le> 2147483647
            \<and> u \<noteq> t \<and> u \<noteq> NULL \<longrightarrow>
            (\<exists>km lm. repeat m (lock_acquire lock) k = Returned () km
               \<and> locks km lock = Some lm \<and> curthread_with_lock lm = t
               \<and> sint (lock_counter lm) = sint (lock_counter l) + int m
               \<and> (int j < sint (lock_counter lm) \<longrightarrow>
                    (\<exists>kj. repeat j (lock_release lock) km = Returned () kj
                       \<and> lock_acquire lock (kj\<lparr>curthread := u\<rparr>) =
                           Slept (kj\<lparr>curthread := u, sleepers := sleepers kj @ [(u, lock)],
                                    saved := (saved kj)(u \<mapsto> In_lock_acquire lock)\<rparr>)))
               \<and> (\<exists>kn. repeat (nat (sint (lock_counter lm))) (lock_release lock) km
                           = Returned () kn
                       \<and> lock_acquire lock (kn\<lparr>curthread := u\<rparr>) =
                           Returned () (kn\<lparr>curthread := u, locks := (locks kn)(lock \<mapsto>
                             lm\<lparr>curthread_with_lock := u, lock_counter := 1, status := 1\<rparr>)\<rparr>)))"
  proof (intro impI, elim conjE)
    assume p: "0 < sint (lock_counter l)"
      and b: "int m + sint (lock_counter l) \<le> 2147483647"
      and ut: "u \<noteq> t" and un: "u \<noteq> NULL"
    let ?lm = "l\<lparr>lock_counter := lock_counter l + of_nat m\<rparr>"
    let ?km = "k\<lparr>locks := (locks k)(lock \<mapsto> ?lm)\<rparr>"
    have r: "repeat m (lock_acquire lock) k = Returned () ?km"
      using repeat_acquire_held [OF assms(2,5) own] .
    have lm: "locks ?km lock = Some ?lm" by simp
    have om: "curthread_with_lock ?lm = curthread ?km" by (simp add: own)
    have hm: "status ?lm = 1" by (simp add: held)
    have sm: "sint (lock_counter ?lm) = sint (lock_counter l) + int m"
      using sint_add_nat [OF b] by simp
    with p have pm: "0 < sint (lock_counter ?lm)" by simp
    have utm: "u \<noteq> curthread ?km" by (simp add: t ut)
    have x: "int j < sint (lock_counter ?lm) \<longrightarrow>
                    (\<exists>kj. repeat j (lock_release lock) ?km = Returned () kj
                       \<and> lock_acquire lock (kj\<lparr>curthread := u\<rparr>) =
                           Slept (kj\<lparr>curthread := u, sleepers := sleepers kj @ [(u, lock)],
                                    saved := (saved kj)(u \<mapsto> In_lock_acquire lock)\<rparr>))"
    proof
      assume "int j < sint (lock_counter ?lm)"
      from releases_then_sleep [OF assms(2) lm om hm this utm]
      show "\<exists>kj. repeat j (lock_release lock) ?km = Returned () kj
                       \<and> lock_acquire lock (kj\<lparr>curthread := u\<rparr>) =
                           Slept (kj\<lparr>curthread := u, sleepers := sleepers kj @ [(u, lock)],
                                    saved := (saved kj)(u \<mapsto> In_lock_acquire lock)\<rparr>)" .
    qed
    have y: "\<exists>kn. repeat (nat (sint (lock_counter ?lm))) (lock_release lock) ?km
                           = Returned () kn
                       \<and> lock_acquire lock (kn\<lparr>curthread := u\<rparr>) =
                           Returned () (kn\<lparr>curthread := u, locks := (locks kn)(lock \<mapsto>
                             ?lm\<lparr>curthread_with_lock := u, lock_counter := 1, status := 1\<rparr>)\<rparr>)"
      using releases_then_acquire [OF assms(2) lm om pm un] .
    have z: "curthread_with_lock ?lm = t" by (simp add: assms(6))
    from r lm z sm x y
    show "\<exists>km lm. repeat m (lock_acquire lock) k = Returned () km
               \<and> locks km lock = Some lm \<and> curthread_with_lock lm = t
               \<and> sint (lock_counter lm) = sint (lock_counter l) + int m
               \<and> (int j < sint (lock_counter lm) \<longrightarrow>
                    (\<exists>kj. repeat j (lock_release lock) km = Returned () kj
                       \<and> lock_acquire lock (kj\<lparr>curthread := u\<rparr>) =
                           Slept (kj\<lparr>curthread := u, sleepers := sleepers kj @ [(u, lock)],
                                    saved := (saved kj)(u \<mapsto> In_lock_acquire lock)\<rparr>)))
               \<and> (\<exists>kn. repeat (nat (sint (lock_counter lm))) (lock_release lock) km
                           = Returned () kn
                       \<and> lock_acquire lock (kn\<lparr>curthread := u\<rparr>) =
                           Returned () (kn\<lparr>curthread := u, locks := (locks kn)(lock \<mapsto>
                             lm\<lparr>curthread_with_lock := u, lock_counter := 1, status := 1\<rparr>)\<rparr>))"
      by - (rule exI [of _ ?km], rule exI [of _ ?lm], intro conjI)
  qed
  from a b c d e show ?thesis by (intro conjI)
qed

theorem lock_release_owner_witness:
  "lock_create 100 True ''l'' k_boot = Returned 100 k_free
   \<and> exec [Call 7 (Call_lock_acquire 100), Call 7 (Call_lock_acquire 100),
            Call 8 (Call_lock_acquire 100)] k_free = Some k_wait8
   \<and> lock_release 100 (k_wait8\<lparr>curthread := 7\<rparr>)
        = Returned () (k_wait8\<lparr>curthread := 7, locks := [100 \<mapsto> l_held]\<rparr>)
   \<and> 0 < sint (lock_counter l_held2) \<and> 1 < sint (lock_counter l_held2)
   \<and> sint (lock_counter l_held2 - 1) = sint (lock_counter l_held2) - 1
   \<and> (\<exists>kj. repeat 1 (lock_release 100) (k_wait8\<lparr>curthread := 7\<rparr>) = Returned () kj
         \<and> lock_acquire 100 (kj\<lparr>curthread := 9\<rparr>) =
             Slept (kj\<lparr>curthread := 9, sleepers := sleepers kj @ [(9, 100)],
                      saved := (saved kj)(9 \<mapsto> In_lock_acquire 100)\<rparr>))
   \<and> (\<exists>kn. repeat 2 (lock_release 100) (k_wait8\<lparr>curthread := 7\<rparr>) = Returned () kn
         \<and> lock_acquire 100 (kn\<lparr>curthread := 9\<rparr>) =
             Returned () (kn\<lparr>curthread := 9, locks := (locks kn)(100 \<mapsto>
               l_held2\<lparr>curthread_with_lock := 9, lock_counter := 1, status := 1\<rparr>)\<rparr>))
   \<and> (\<exists>km lm. repeat 1 (lock_acquire 100) (k_wait8\<lparr>curthread := 7\<rparr>) = Returned () km
         \<and> locks km 100 = Some lm \<and> sint (lock_counter lm) = 3
         \<and> (\<exists>kj. repeat 2 (lock_release 100) km = Returned () kj
               \<and> lock_acquire 100 (kj\<lparr>curthread := 9\<rparr>) =
                   Slept (kj\<lparr>curthread := 9, sleepers := sleepers kj @ [(9, 100)],
                            saved := (saved kj)(9 \<mapsto> In_lock_acquire 100)\<rparr>))
         \<and> (\<exists>kn. repeat 3 (lock_release 100) km = Returned () kn
               \<and> lock_acquire 100 (kn\<lparr>curthread := 9\<rparr>) =
                   Returned () (kn\<lparr>curthread := 9, locks := (locks kn)(100 \<mapsto>
                     lm\<lparr>curthread_with_lock := 9, lock_counter := 1, status := 1\<rparr>)\<rparr>)))
   \<and> exec [Call 7 (Call_lock_acquire 100), Call 7 (Call_lock_acquire 100),
            Call 8 (Call_lock_acquire 100), Call 7 (Call_lock_release 100)] k_free
        = Some (k_wait8\<lparr>curthread := 7, locks := [100 \<mapsto> l_held]\<rparr>)
   \<and> lock_release 100 (k_wait8\<lparr>curthread := 7, locks := [100 \<mapsto> l_held]\<rparr>)
        = Returned () (k_boot\<lparr>locks := [100 \<mapsto> l_free], runqueue := [8],
                              saved := [8 \<mapsto> In_lock_acquire 100]\<rparr>)"
proof -
  note c = create_k_free and n = not_null_100
  note e1 = exec_k_wait8
  have l1: "locks (k_wait8\<lparr>curthread := 7\<rparr>) 100 = Some l_held2" by (simp add: state_defs)
  have o1: "curthread_with_lock l_held2 = 7" by (simp add: state_defs)
  have t: "(7::addr) \<noteq> NULL" by (simp add: NULL_def)
  note i1 = lock_release_owner [OF c n e1 refl l1 o1 t, of 1 9 1]
  note i3 = lock_release_owner [OF c n e1 refl l1 o1 t, of 2 9 1]
  note e2 = exec_k_wait8_rel
  have k2: "k_wait8\<lparr>curthread := 7, locks := [100 \<mapsto> l_held]\<rparr>
     = (k_wait8\<lparr>curthread := 7, locks := [100 \<mapsto> l_held]\<rparr>)\<lparr>curthread := 7\<rparr>"
    by simp
  have l2: "locks (k_wait8\<lparr>curthread := 7, locks := [100 \<mapsto> l_held]\<rparr>) 100 = Some l_held"
    by simp
  have o2: "curthread_with_lock l_held = 7" by (simp add: state_defs)
  note i2 = lock_release_owner [OF c n e2 k2 l2 o2 t]
  have ne: "lock_counter l_held2 \<noteq> 1" by (simp add: l_held2_def)
  have p: "0 < sint (lock_counter l_held2)" by (simp add: l_held2_def)
  note b1 = mp [OF conjunct1 [OF conjunct2 [OF i1]] ne]
  have a: "lock_release 100 (k_wait8\<lparr>curthread := 7\<rparr>)
        = Returned () (k_wait8\<lparr>curthread := 7, locks := [100 \<mapsto> l_held]\<rparr>)"
    using conjunct1 [OF conjunct2 [OF b1]] by (simp add: state_defs)
  note a2 = mp [OF conjunct2 [OF conjunct2 [OF b1]] p]
  have b: "\<exists>kj. repeat 1 (lock_release 100) (k_wait8\<lparr>curthread := 7\<rparr>) = Returned () kj
         \<and> lock_acquire 100 (kj\<lparr>curthread := 9\<rparr>) =
             Slept (kj\<lparr>curthread := 9, sleepers := sleepers kj @ [(9, 100)],
                      saved := (saved kj)(9 \<mapsto> In_lock_acquire 100)\<rparr>)"
  proof (rule mp [OF conjunct1 [OF conjunct2 [OF conjunct2 [OF i1]]]])
    show "int 1 < sint (lock_counter l_held2) \<and> (9::addr) \<noteq> 7"
      by (simp add: l_held2_def)
  qed
  have d: "\<exists>kn. repeat 2 (lock_release 100) (k_wait8\<lparr>curthread := 7\<rparr>) = Returned () kn
         \<and> lock_acquire 100 (kn\<lparr>curthread := 9\<rparr>) =
             Returned () (kn\<lparr>curthread := 9, locks := (locks kn)(100 \<mapsto>
               l_held2\<lparr>curthread_with_lock := 9, lock_counter := 1, status := 1\<rparr>)\<rparr>)"
  proof -
    have "0 < sint (lock_counter l_held2) \<and> (9::addr) \<noteq> NULL"
      by (simp add: NULL_def l_held2_def)
    from mp [OF conjunct1 [OF conjunct2 [OF conjunct2 [OF conjunct2 [OF i1]]]] this]
    show ?thesis by (simp add: l_held2_def)
  qed
  have pe: "0 < sint (lock_counter l_held2) \<and> int 1 + sint (lock_counter l_held2) \<le> 2147483647
      \<and> (9::addr) \<noteq> 7 \<and> (9::addr) \<noteq> NULL"
    by (simp add: l_held2_def NULL_def)
  from mp [OF conjunct2 [OF conjunct2 [OF conjunct2 [OF conjunct2 [OF i3]]]] pe]
  obtain km lm where r: "repeat 1 (lock_acquire 100) (k_wait8\<lparr>curthread := 7\<rparr>) = Returned () km"
    and lm: "locks km 100 = Some lm"
    and s: "sint (lock_counter lm) = sint (lock_counter l_held2) + int 1"
    and x: "int 2 < sint (lock_counter lm) \<longrightarrow>
              (\<exists>kj. repeat 2 (lock_release 100) km = Returned () kj
                 \<and> lock_acquire 100 (kj\<lparr>curthread := 9\<rparr>) =
                     Slept (kj\<lparr>curthread := 9, sleepers := sleepers kj @ [(9, 100)],
                              saved := (saved kj)(9 \<mapsto> In_lock_acquire 100)\<rparr>))"
    and y: "\<exists>kn. repeat (nat (sint (lock_counter lm))) (lock_release 100) km = Returned () kn
               \<and> lock_acquire 100 (kn\<lparr>curthread := 9\<rparr>) =
                   Returned () (kn\<lparr>curthread := 9, locks := (locks kn)(100 \<mapsto>
                     lm\<lparr>curthread_with_lock := 9, lock_counter := 1, status := 1\<rparr>)\<rparr>)"
    by blast
  from s have s3: "sint (lock_counter lm) = 3" by (simp add: l_held2_def)
  then have "int 2 < sint (lock_counter lm)" by simp
  note x' = mp [OF x this]
  from s3 have "nat (sint (lock_counter lm)) = 3" by simp
  note y' = y [unfolded this]
  from r lm s3 x' y'
  have g: "\<exists>km lm. repeat 1 (lock_acquire 100) (k_wait8\<lparr>curthread := 7\<rparr>) = Returned () km
         \<and> locks km 100 = Some lm \<and> sint (lock_counter lm) = 3
         \<and> (\<exists>kj. repeat 2 (lock_release 100) km = Returned () kj
               \<and> lock_acquire 100 (kj\<lparr>curthread := 9\<rparr>) =
                   Slept (kj\<lparr>curthread := 9, sleepers := sleepers kj @ [(9, 100)],
                            saved := (saved kj)(9 \<mapsto> In_lock_acquire 100)\<rparr>))
         \<and> (\<exists>kn. repeat 3 (lock_release 100) km = Returned () kn
               \<and> lock_acquire 100 (kn\<lparr>curthread := 9\<rparr>) =
                   Returned () (kn\<lparr>curthread := 9, locks := (locks kn)(100 \<mapsto>
                     lm\<lparr>curthread_with_lock := 9, lock_counter := 1, status := 1\<rparr>)\<rparr>))"
    by - (rule exI [of _ km], rule exI [of _ lm], intro conjI)
  have f: "lock_release 100 (k_wait8\<lparr>curthread := 7, locks := [100 \<mapsto> l_held]\<rparr>)
        = Returned () (k_boot\<lparr>locks := [100 \<mapsto> l_free], runqueue := [8],
                              saved := [8 \<mapsto> In_lock_acquire 100]\<rparr>)"
    using i2 by (simp add: state_defs)
  from c e1 a p a2 b d g e2 f show ?thesis
    by (elim conjE, intro conjI)
qed

text \<open>
  Claim C4.  When the calling thread is not the owner of the lock (on a free lock the
  owner is the null pointer, which no thread is), \<^verbatim>\<open>lock_release\<close> returns without
  a fatal error and leaves the whole kernel state as it was: every field of the lock, the
  sleeping threads and the run queue.
\<close>

theorem lock_release_not_owner:
  assumes "lock \<noteq> NULL" and "locks k lock = Some l"
    and "curthread k \<noteq> curthread_with_lock l"
  shows "lock_release lock k = Returned () k"
  using assms by (simp add: lock_release_def)

theorem lock_release_not_owner_witness:
  "lock_release 100 k_free = Returned () k_free
   \<and> lock_release 100 (k_held\<lparr>curthread := 8\<rparr>) = Returned () (k_held\<lparr>curthread := 8\<rparr>)"
  using lock_release_not_owner [of 100 k_free l_free]
    lock_release_not_owner [of 100 "k_held\<lparr>curthread := 8\<rparr>" l_held]
  by (simp add: k_free_def k_held_def k_boot_def l_free_def l_held_def NULL_def)

subsection \<open>Semaphore\<close>

text \<open>
  Claim C5.  \<^verbatim>\<open>sem_create\<close> returns a semaphore only for an initial count that is
  not negative, and after every schedule of calls by any threads the count of that
  semaphore is not negative.  Whenever \<^verbatim>\<open>P\<close> returns, at its call or where it
  resumed, the count it found was positive and is now one less; whenever \<^verbatim>\<open>V\<close>
  returns, the count is one more.  The counts are read as the signed values of the C
  \<^verbatim>\<open>int\<close>.
\<close>

theorem sem_count_nonneg:
  assumes "sem_create p dup_ok nm n k0 = Returned sem k1" and "sem \<noteq> NULL"
    and "exec evs k1 = Some k"
  shows "0 \<le> sint n \<and> (\<exists>s. sems k1 sem = Some s \<and> count s = n)
       \<and> (\<exists>s. sems k sem = Some s \<and> 0 \<le> sint (count s))
       \<and> (P sem ka = Returned u ka' \<or> resume (In_P sem) ka = Returned u ka' \<longrightarrow>
            (\<exists>s. sems ka sem = Some s \<and> 0 < sint (count s)
                  \<and> ka' = ka\<lparr>sems := (sems ka)(sem \<mapsto> s\<lparr>count := count s - 1\<rparr>)\<rparr>
                  \<and> sint (count s - 1) = sint (count s) - 1))
       \<and> (V sem kb = Returned u kb' \<longrightarrow>
            (\<exists>s s'. sems kb sem = Some s \<and> sems kb' sem = Some s' \<and> count s' = count s + 1
                  \<and> sint (count s') = sint (count s) + 1))"
proof (intro conjI)
  from assms(1,2) show "0 \<le> sint n" and "\<exists>s. sems k1 sem = Some s \<and> count s = n"
    by (auto simp: sem_create_def split: if_splits)
next
  have "sem_ok_at sem k"
    by (rule exec_sem_ok [OF sem_create_sem_ok [OF assms(1,2)] assms(3)])
  then show "\<exists>s. sems k sem = Some s \<and> 0 \<le> sint (count s)"
    by (simp add: sem_ok_at_def)
next
  show "P sem ka = Returned u ka' \<or> resume (In_P sem) ka = Returned u ka' \<longrightarrow>
            (\<exists>s. sems ka sem = Some s \<and> 0 < sint (count s)
                  \<and> ka' = ka\<lparr>sems := (sems ka)(sem \<mapsto> s\<lparr>count := count s - 1\<rparr>)\<rparr>
                  \<and> sint (count s - 1) = sint (count s) - 1)"
    by (auto simp: P_def P_loop_def sint_dec split: option.splits if_splits)
next
  show "V sem kb = Returned u kb' \<longrightarrow>
            (\<exists>s s'. sems kb sem = Some s \<and> sems kb' sem = Some s' \<and> count s' = count s + 1
                  \<and> sint (count s') = sint (count s) + 1)"
  proof
    assume v: "V sem kb = Returned u kb'"
    then obtain s where s: "sems kb sem = Some s"
      by (auto simp: V_def split: option.splits if_splits)
    with v have p: "0 < sint (count s + 1)"
      by (auto simp: V_def Let_def split: if_splits)
    from s v have s': "sems kb' sem = Some (s\<lparr>count := count s + 1\<rparr>)"
      by (auto simp: V_def thread_wakeup_def Let_def split: if_splits)
    from sint_inc [OF sint_inc_pos [OF p]]
    have "sint (count s + 1) = sint (count s) + 1" .
    with s s' show "\<exists>s s'. sems kb sem = Some s \<and> sems kb' sem = Some s'
        \<and> count s' = count s + 1 \<and> sint (count s') = sint (count s) + 1"
      by simp
  qed
qed

theorem sem_count_nonneg_witness:
  "sem_create 300 True ''s'' 0 k_boot = Returned 300 k_sem
   \<and> exec [Call 7 (Call_P 300), Call 8 (Call_V 300), Resume 7] k_sem = Some k_sem
   \<and> sems k_sem 300 = Some s_zero \<and> 0 \<le> sint (count s_zero)
   \<and> V 300 k_semwait = Returned () (k_boot\<lparr>sems := [300 \<mapsto> s_zero\<lparr>count := 1\<rparr>],
                     runqueue := [7], saved := [7 \<mapsto> In_P 300]\<rparr>)
   \<and> count (s_zero\<lparr>count := 1\<rparr>) = count s_zero + 1
   \<and> sint (count (s_zero\<lparr>count := 1\<rparr>)) = sint (count s_zero) + 1
   \<and> resume (In_P 300) (k_boot\<lparr>sems := [300 \<mapsto> s_zero\<lparr>count := 1\<rparr>]\<rparr>) = Returned () k_sem
   \<and> 0 < sint (count (s_zero\<lparr>count := 1\<rparr>))"
proof -
  note c = create_k_sem and n = not_null_300 and e = exec_k_semwait_V_P
  have v: "V 300 k_semwait = Returned () (k_boot\<lparr>sems := [300 \<mapsto> s_zero\<lparr>count := 1\<rparr>],
                     runqueue := [7], saved := [7 \<mapsto> In_P 300]\<rparr>)"
    by (simp add: op_defs state_defs)
  have p: "resume (In_P 300) (k_boot\<lparr>sems := [300 \<mapsto> s_zero\<lparr>count := 1\<rparr>]\<rparr>) = Returned () k_sem"
    by (simp add: op_defs state_defs)
  from sem_count_nonneg [OF c n e, of "k_boot\<lparr>sems := [300 \<mapsto> s_zero\<lparr>count := 1\<rparr>]\<rparr>" "()" k_sem
      k_semwait "k_boot\<lparr>sems := [300 \<mapsto> s_zero\<lparr>count := 1\<rparr>],
                     runqueue := [7], saved := [7 \<mapsto> In_P 300]\<rparr>"] c e v p
  show ?thesis
    by (simp add: state_defs)
qed

text \<open>
  The count is a C \<^verbatim>\<open>int\<close>, and \<^verbatim>\<open>V\<close> asserts that it is positive after having
  added one to it.  A semaphore created with a count of \<open>INT_MAX\<close>: \<^verbatim>\<open>V\<close> does not
  return with the count one more and the sleeping threads woken; it stops the kernel.
\<close>

theorem sem_V_overflow:
  "sem_create 300 True ''s'' 2147483647 k_boot = Returned 300 k_semfull
   \<and> exec [] k_semfull = Some k_semfull
   \<and> sems k_semfull 300 = Some s_full
   \<and> sint (count s_full) = 2147483647
   \<and> V 300 k_semfull = Panic
   \<and> exec [Call 7 (Call_V 300)] k_semfull = None"
proof -
  have e: "exec [] k_semfull = Some k_semfull" by simp
  have s: "sems k_semfull 300 = Some s_full" by (simp add: k_semfull_def)
  have i: "sint (count s_full) = 2147483647" by (simp add: s_full_def)
  have v: "V 300 k_semfull = Panic" by (simp add: op_defs state_defs)
  have x: "exec [Call 7 (Call_V 300)] k_semfull = None" by (simp add: op_defs state_defs)
  from create_k_semfull e s i v x show ?thesis by (intro conjI)
qed

text \<open>
  Claim C6.  In every state that a schedule reaches from the creation of the semaphore,
  \<^verbatim>\<open>V\<close>, when the count is below \<open>INT_MAX\<close>, adds one to the count and moves every
  thread that sleeps on the address of the semaphore to the run queue, in one step; when
  the count is \<open>INT_MAX\<close>, \<^verbatim>\<open>V\<close> stops the kernel.  \<^verbatim>\<open>P\<close>, called outside an
  interrupt, puts the caller to sleep on that address while the count is 0 and leaves the
  count as it is; where the caller resumes it makes the same test again; and when it finds
  the count positive it takes one from it and returns.
\<close>

theorem sem_V_P_behaviour:
  assumes "sem_create p dup_ok nm n k0 = Returned sem k1" and "sem \<noteq> NULL"
    and "exec evs k1 = Some k'" and "k = k'\<lparr>curthread := t\<rparr>"
    and "sems k sem = Some s"
  shows "(count s \<noteq> INT_MAX \<longrightarrow>
          V sem k =
           Returned () (k\<lparr>sems := (sems k)(sem \<mapsto> s\<lparr>count := count s + 1\<rparr>),
                          sleepers := filter (\<lambda>(x, a). a \<noteq> sem) (sleepers k),
                          runqueue := runqueue k @ map fst (filter (\<lambda>(x, a). a = sem) (sleepers k))\<rparr>)
          \<and> sint (count s + 1) = sint (count s) + 1)
     \<and> (count s = INT_MAX \<longrightarrow> V sem k = Panic)
     \<and> (in_interrupt k = 0 \<and> count s = 0 \<longrightarrow>
          P sem k = Slept (k\<lparr>sleepers := sleepers k @ [(t, sem)],
                             saved := (saved k)(t \<mapsto> In_P sem)\<rparr>))
     \<and> (in_interrupt k = 0 \<and> count s \<noteq> 0 \<longrightarrow>
          0 < sint (count s) \<and>
          P sem k = Returned () (k\<lparr>sems := (sems k)(sem \<mapsto> s\<lparr>count := count s - 1\<rparr>)\<rparr>)
          \<and> sint (count s - 1) = sint (count s) - 1)
     \<and> (count s = 0 \<longrightarrow>
          resume (In_P sem) k = Slept (k\<lparr>sleepers := sleepers k @ [(t, sem)],
                                         saved := (saved k)(t \<mapsto> In_P sem)\<rparr>))
     \<and> (count s \<noteq> 0 \<longrightarrow>
          resume (In_P sem) k =
            Returned () (k\<lparr>sems := (sems k)(sem \<mapsto> s\<lparr>count := count s - 1\<rparr>)\<rparr>))"
proof -
  have "sem_ok_at sem k'"
    by (rule exec_sem_ok [OF sem_create_sem_ok [OF assms(1,2)] assms(3)])
  with assms(5) have c: "0 \<le> sint (count s)"
    by (auto simp: sem_ok_at_def assms(4))
  have pos: "0 < sint (count s)" if "count s \<noteq> 0"
  proof -
    from that have "sint (count s) \<noteq> 0" by (simp add: sint_zero_iff)
    with c show ?thesis by simp
  qed
  note s = assms(5)
  have t: "curthread k = t" by (simp add: assms(4))
  have "count s \<noteq> INT_MAX \<longrightarrow>
          V sem k =
           Returned () (k\<lparr>sems := (sems k)(sem \<mapsto> s\<lparr>count := count s + 1\<rparr>),
                          sleepers := filter (\<lambda>(x, a). a \<noteq> sem) (sleepers k),
                          runqueue := runqueue k @ map fst (filter (\<lambda>(x, a). a = sem) (sleepers k))\<rparr>)
          \<and> sint (count s + 1) = sint (count s) + 1"
  proof
    assume "count s \<noteq> INT_MAX"
    then have i: "sint (count s + 1) = sint (count s) + 1" by (rule sint_inc)
    with c have "0 < sint (count s + 1)" by simp
    with s assms(2) i show "V sem k =
           Returned () (k\<lparr>sems := (sems k)(sem \<mapsto> s\<lparr>count := count s + 1\<rparr>),
                          sleepers := filter (\<lambda>(x, a). a \<noteq> sem) (sleepers k),
                          runqueue := runqueue k @ map fst (filter (\<lambda>(x, a). a = sem) (sleepers k))\<rparr>)
          \<and> sint (count s + 1) = sint (count s) + 1"
      by (simp add: V_def thread_wakeup_def sleeping_on_def)
  qed
  moreover have "count s = INT_MAX \<longrightarrow> V sem k = Panic"
    using s assms(2) by (simp add: V_def sint_inc_overflow)
  moreover have "in_interrupt k = 0 \<and> count s = 0 \<longrightarrow>
          P sem k = Slept (k\<lparr>sleepers := sleepers k @ [(t, sem)],
                             saved := (saved k)(t \<mapsto> In_P sem)\<rparr>)"
    using s t assms(2) by (simp add: P_def P_loop_def thread_sleep_def)
  moreover have "in_interrupt k = 0 \<and> count s \<noteq> 0 \<longrightarrow>
          0 < sint (count s) \<and>
          P sem k = Returned () (k\<lparr>sems := (sems k)(sem \<mapsto> s\<lparr>count := count s - 1\<rparr>)\<rparr>)
          \<and> sint (count s - 1) = sint (count s) - 1"
    using s pos assms(2) by (simp add: P_def P_loop_def sint_dec)
  moreover have "count s = 0 \<longrightarrow>
          resume (In_P sem) k = Slept (k\<lparr>sleepers := sleepers k @ [(t, sem)],
                                         saved := (saved k)(t \<mapsto> In_P sem)\<rparr>)"
    using s t by (simp add: P_loop_def thread_sleep_def)
  moreover have "count s \<noteq> 0 \<longrightarrow>
          resume (In_P sem) k =
            Returned () (k\<lparr>sems := (sems k)(sem \<mapsto> s\<lparr>count := count s - 1\<rparr>)\<rparr>)"
    using s pos by (simp add: P_loop_def)
  ultimately show ?thesis by (intro conjI)
qed

theorem sem_V_P_behaviour_witness:
  "sem_create 300 True ''s'' 0 k_boot = Returned 300 k_sem
   \<and> exec [Call 7 (Call_P 300)] k_sem = Some k_semwait
   \<and> V 300 (k_semwait\<lparr>curthread := 8\<rparr>)
       = Returned () (k_boot\<lparr>curthread := 8, sems := [300 \<mapsto> s_zero\<lparr>count := 1\<rparr>],
                             runqueue := [7], saved := [7 \<mapsto> In_P 300]\<rparr>)
   \<and> P 300 (k_semwait\<lparr>curthread := 8\<rparr>)
       = Slept (k_semwait\<lparr>curthread := 8, sleepers := [(7, 300), (8, 300)],
                         saved := [7 \<mapsto> In_P 300, 8 \<mapsto> In_P 300]\<rparr>)
   \<and> resume (In_P 300) (k_semwait\<lparr>curthread := 8\<rparr>)
       = Slept (k_semwait\<lparr>curthread := 8, sleepers := [(7, 300), (8, 300)],
                         saved := [7 \<mapsto> In_P 300, 8 \<mapsto> In_P 300]\<rparr>)
   \<and> exec [Call 7 (Call_P 300), Call 8 (Call_V 300)] k_sem
       = Some (k_boot\<lparr>curthread := 8, sems := [300 \<mapsto> s_zero\<lparr>count := 1\<rparr>],
                       runqueue := [7], saved := [7 \<mapsto> In_P 300]\<rparr>)
   \<and> P 300 (k_boot\<lparr>curthread := 9, sems := [300 \<mapsto> s_zero\<lparr>count := 1\<rparr>],
                     runqueue := [7], saved := [7 \<mapsto> In_P 300]\<rparr>)
       = Returned () (k_boot\<lparr>curthread := 9, sems := [300 \<mapsto> s_zero],
                             runqueue := [7], saved := [7 \<mapsto> In_P 300]\<rparr>)
   \<and> resume (In_P 300) (k_boot\<lparr>curthread := 9, sems := [300 \<mapsto> s_zero\<lparr>count := 1\<rparr>],
                     runqueue := [7], saved := [7 \<mapsto> In_P 300]\<rparr>)
       = Returned () (k_boot\<lparr>curthread := 9, sems := [300 \<mapsto> s_zero],
                             runqueue := [7], saved := [7 \<mapsto> In_P 300]\<rparr>)
   \<and> count s_zero \<noteq> INT_MAX \<and> sint (count s_zero + 1) = sint (count s_zero) + 1
   \<and> sint (count (s_zero\<lparr>count := 1\<rparr>) - 1) = sint (count (s_zero\<lparr>count := 1\<rparr>)) - 1
   \<and> sem_create 300 True ''s'' 2147483647 k_boot = Returned 300 k_semfull
   \<and> exec [] k_semfull = Some k_semfull
   \<and> count s_full = INT_MAX
   \<and> V 300 k_semfull = Panic"
proof -
  note c = create_k_sem and n = not_null_300
  note e1 = exec_k_semwait
  have s1: "sems (k_semwait\<lparr>curthread := 8\<rparr>) 300 = Some s_zero"
    by (simp add: state_defs)
  note i1 = sem_V_P_behaviour [OF c n e1 refl s1]
  note e2 = exec_k_semwait_V
  let ?k2 = "k_boot\<lparr>curthread := 8, sems := [300 \<mapsto> s_zero\<lparr>count := 1\<rparr>],
                       runqueue := [7], saved := [7 \<mapsto> In_P 300]\<rparr>"
  have s2: "sems (?k2\<lparr>curthread := 9\<rparr>) 300 = Some (s_zero\<lparr>count := 1\<rparr>)"
    by simp
  note i2 = sem_V_P_behaviour [OF c n e2 refl s2]
  note c3 = create_k_semfull
  have e3: "exec [] k_semfull = Some k_semfull" by simp
  have k3: "k_semfull = k_semfull\<lparr>curthread := 7\<rparr>" by (simp add: state_defs)
  have s3: "sems k_semfull 300 = Some s_full" by (simp add: k_semfull_def)
  note i3 = sem_V_P_behaviour [OF c3 n e3 k3 s3]
  from i1 i2 i3 c e1 e2 c3 e3 show ?thesis
    by (simp add: state_defs INT_MAX_def)
qed

subsection \<open>Condition variable\<close>

text \<open>
  Claim C7.  Start from a kernel in which no thread sleeps and every wait queue is empty,
  and let any schedule run.  Then \<^verbatim>\<open>cv_signal\<close>, called by thread \<open>t\<close>, stops on its
  assertion unless \<open>t\<close> holds the lock; on an empty wait queue it returns and changes
  nothing; on a wait queue with head \<open>w\<close> it removes \<open>w\<close> from the queue, and \<open>w\<close>,
  which is the one thread that sleeps on the address \<open>w\<close>, moves to the end of the run
  queue while every other sleeper stays asleep.  \<^verbatim>\<open>cv_wait\<close> appends its caller at
  the tail of the queue, so \<open>n\<close> signals in a row wake the first \<open>n\<close> waiters in the
  order in which they called \<^verbatim>\<open>cv_wait\<close>.
\<close>

theorem cv_signal_fifo:
  assumes "quiescent k0" and "exec evs k0 = Some k'" and "k = k'\<lparr>curthread := t\<rparr>"
    and "locks k lock = Some l" and "cvs k cv = Some c"
  shows "(curthread_with_lock l \<noteq> t \<longrightarrow> cv_signal cv lock k = Panic)
     \<and> (curthread_with_lock l = t \<and> q c = [] \<longrightarrow> cv_signal cv lock k = Returned () k)
     \<and> (curthread_with_lock l = t \<and> q c = w # ws \<longrightarrow>
          (w, w) \<in> set (sleepers k)
          \<and> map fst (filter (\<lambda>(x, a). a = w) (sleepers k)) = [w]
          \<and> cv_signal cv lock k =
              Returned () (k\<lparr>cvs := (cvs k)(cv \<mapsto> c\<lparr>q := ws\<rparr>),
                             sleepers := filter (\<lambda>(x, a). x \<noteq> w) (sleepers k),
                             runqueue := runqueue k @ [w]\<rparr>))
     \<and> (curthread_with_lock l = t \<longrightarrow>
          repeat n (cv_signal cv lock) k =
            Returned () (k\<lparr>cvs := (cvs k)(cv \<mapsto> c\<lparr>q := drop n (q c)\<rparr>),
                           sleepers := filter (\<lambda>(x, a). x \<notin> set (take n (q c))) (sleepers k),
                           runqueue := runqueue k @ take n (q c)\<rparr>))
     \<and> (cv_wait r cv lock k = Slept k2 \<longrightarrow>
          (\<exists>c2. cvs k2 cv = Some c2 \<and> q c2 = q c @ [t]))"
proof -
  have "cv_inv k'"
    by (rule exec_cv_inv [OF quiescent_cv_inv [OF assms(1)] assms(2)])
  then have inv: "cv_inv k" by (simp add: assms(3))
  have t: "curthread k = t" by (simp add: assms(3))
  note l = assms(4) and c = assms(5)
  have 1: "curthread_with_lock l \<noteq> t \<longrightarrow> cv_signal cv lock k = Panic"
    using cv_signal_not_held [OF l] t by simp
  have 2: "curthread_with_lock l = t \<and> q c = [] \<longrightarrow> cv_signal cv lock k = Returned () k"
    using cv_signal_empty [OF l _ c] t by simp
  have 3: "curthread_with_lock l = t \<and> q c = w # ws \<longrightarrow>
          (w, w) \<in> set (sleepers k)
          \<and> map fst (filter (\<lambda>(x, a). a = w) (sleepers k)) = [w]
          \<and> cv_signal cv lock k =
              Returned () (k\<lparr>cvs := (cvs k)(cv \<mapsto> c\<lparr>q := ws\<rparr>),
                             sleepers := filter (\<lambda>(x, a). x \<noteq> w) (sleepers k),
                             runqueue := runqueue k @ [w]\<rparr>)"
  proof
    assume a: "curthread_with_lock l = t \<and> q c = w # ws"
    then have w: "w \<in> set (q c)" by simp
    from cv_inv_head(1,3) [OF inv c w] cv_signal_head [OF inv l _ c, of w ws] a t
    show "(w, w) \<in> set (sleepers k)
          \<and> map fst (filter (\<lambda>(x, a). a = w) (sleepers k)) = [w]
          \<and> cv_signal cv lock k =
              Returned () (k\<lparr>cvs := (cvs k)(cv \<mapsto> c\<lparr>q := ws\<rparr>),
                             sleepers := filter (\<lambda>(x, a). x \<noteq> w) (sleepers k),
                             runqueue := runqueue k @ [w]\<rparr>)"
      by (simp add: sleeping_on_def)
  qed
  have 4: "curthread_with_lock l = t \<longrightarrow>
          repeat n (cv_signal cv lock) k =
            Returned () (k\<lparr>cvs := (cvs k)(cv \<mapsto> c\<lparr>q := drop n (q c)\<rparr>),
                           sleepers := filter (\<lambda>(x, a). x \<notin> set (take n (q c))) (sleepers k),
                           runqueue := runqueue k @ take n (q c)\<rparr>)"
    using repeat_cv_signal [OF inv l _ c] t by simp
  have 5: "cv_wait r cv lock k = Slept k2 \<longrightarrow>
          (\<exists>c2. cvs k2 cv = Some c2 \<and> q c2 = q c @ [t])"
  proof
    assume "cv_wait r cv lock k = Slept k2"
    then have "kernel_of (cv_wait r cv lock k) = Some k2" by simp
    from cv_wait_kernel_of [OF this] obtain c' k3 where c': "cvs k cv = Some c'"
      and rel: "lock_release lock (k\<lparr>cvs := (cvs k)(cv \<mapsto> c'\<lparr>q := q c' @ [curthread k]\<rparr>)\<rparr>)
                  = Returned () k3"
      and k2: "k2 = thread_sleep (curthread k3) (In_cv_wait lock) k3"
      by blast
    from rel have "kernel_of (lock_release lock
        (k\<lparr>cvs := (cvs k)(cv \<mapsto> c'\<lparr>q := q c' @ [curthread k]\<rparr>)\<rparr>)) = Some k3" by simp
    from lock_release_frame [OF this] k2 c c' t
    show "\<exists>c2. cvs k2 cv = Some c2 \<and> q c2 = q c @ [t]"
      by (simp add: thread_sleep_def)
  qed
  from 1 2 3 4 5 show ?thesis by blast
qed

theorem cv_signal_fifo_witness:
  "quiescent k_cv0 \<and> exec three_waits k_cv0 = Some k_waiters
   \<and> (1, 1) \<in> set (sleepers k_waiters)
   \<and> cv_signal 200 100 k_waiters =
       Returned () (k_waiters\<lparr>cvs := [200 \<mapsto> \<lparr>cv_name = ''c'', q = [2, 3]\<rparr>],
                              sleepers := [(2, 2), (3, 3)], runqueue := [1]\<rparr>)
   \<and> repeat 2 (cv_signal 200 100) k_waiters =
       Returned () (k_waiters\<lparr>cvs := [200 \<mapsto> \<lparr>cv_name = ''c'', q = [3]\<rparr>],
                              sleepers := [(3, 3)], runqueue := [1, 2]\<rparr>)
   \<and> cv_signal 200 100 (k_waiters\<lparr>curthread := 5\<rparr>) = Panic
   \<and> exec [Call 4 (Call_lock_acquire 100)] k_cv0 = Some k_held4
   \<and> cv_signal 200 100 k_held4 = Returned () k_held4
   \<and> cv_wait 0 200 100 k_waiters =
       Slept (k_waiters\<lparr>locks := [100 \<mapsto> l_free],
                        cvs := [200 \<mapsto> \<lparr>cv_name = ''c'', q = [1, 2, 3, 4]\<rparr>],
                        sleepers := [(1, 1), (2, 2), (3, 3), (4, 4)],
                        saved := [1 \<mapsto> In_cv_wait 100, 2 \<mapsto> In_cv_wait 100,
                                  3 \<mapsto> In_cv_wait 100, 4 \<mapsto> In_cv_wait 100]\<rparr>)"
proof -
  note z = quiescent_k_cv0 and e = exec_three_waits
  let ?c = "\<lparr>cv_name = ''c'', q = [1, 2, 3]\<rparr>"
  let ?k2 = "k_waiters\<lparr>locks := [100 \<mapsto> l_free],
                        cvs := [200 \<mapsto> \<lparr>cv_name = ''c'', q = [1, 2, 3, 4]\<rparr>],
                        sleepers := [(1, 1), (2, 2), (3, 3), (4, 4)],
                        saved := [1 \<mapsto> In_cv_wait 100, 2 \<mapsto> In_cv_wait 100,
                                  3 \<mapsto> In_cv_wait 100, 4 \<mapsto> In_cv_wait 100]\<rparr>"
  have l: "locks (k_waiters\<lparr>curthread := 4\<rparr>) 100 = Some l_held4"
    and c: "cvs (k_waiters\<lparr>curthread := 4\<rparr>) 200 = Some ?c"
    by (simp_all add: state_defs)
  note i1 = cv_signal_fifo [OF z e refl l c, of 1 "[2, 3]" 2 0 ?k2]
  have l5: "locks (k_waiters\<lparr>curthread := 5\<rparr>) 100 = Some l_held4"
    and c5: "cvs (k_waiters\<lparr>curthread := 5\<rparr>) 200 = Some ?c"
    by (simp_all add: state_defs)
  note i2 = cv_signal_fifo [OF z e refl l5 c5]
  note e3 = exec_k_held4
  have l3: "locks (k_held4\<lparr>curthread := 4\<rparr>) 100 = Some l_held4"
    and c3: "cvs (k_held4\<lparr>curthread := 4\<rparr>) 200 = Some \<lparr>cv_name = ''c'', q = []\<rparr>"
    by (simp_all add: state_defs)
  note i3 = cv_signal_fifo [OF z e3 refl l3 c3]
  have w: "cv_wait 0 200 100 k_waiters = Slept ?k2"
    by (simp add: op_defs state_defs)
  have a: "(1, 1) \<in> set (sleepers k_waiters)
   \<and> cv_signal 200 100 k_waiters =
       Returned () (k_waiters\<lparr>cvs := [200 \<mapsto> \<lparr>cv_name = ''c'', q = [2, 3]\<rparr>],
                              sleepers := [(2, 2), (3, 3)], runqueue := [1]\<rparr>)
   \<and> repeat 2 (cv_signal 200 100) k_waiters =
       Returned () (k_waiters\<lparr>cvs := [200 \<mapsto> \<lparr>cv_name = ''c'', q = [3]\<rparr>],
                              sleepers := [(3, 3)], runqueue := [1, 2]\<rparr>)"
    using i1 by (simp add: state_defs)
  have b: "cv_signal 200 100 (k_waiters\<lparr>curthread := 5\<rparr>) = Panic"
    using i2 by (simp add: state_defs)
  have d: "cv_signal 200 100 k_held4 = Returned () k_held4"
    using i3 by (simp add: state_defs)
  from a b d z e e3 w show ?thesis by simp
qed

text \<open>
  Claim C8.  Start from a kernel in which no thread sleeps and every wait queue is empty,
  and let any schedule run.  Then \<^verbatim>\<open>cv_broadcast\<close>, called by thread \<open>t\<close>, stops on
  its assertion unless \<open>t\<close> holds the lock.  Otherwise the waiters in the queue are
  distinct sleeping threads; \<^verbatim>\<open>cv_broadcast\<close> returns with the wait queue empty, all
  of them removed from the sleepers and appended to the run queue in queue order; this is
  what one \<^verbatim>\<open>cv_signal\<close> per waiter does; and a \<^verbatim>\<open>cv_signal\<close> after it changes
  nothing.
\<close>

theorem cv_broadcast_all:
  assumes "quiescent k0" and "exec evs k0 = Some k'" and "k = k'\<lparr>curthread := t\<rparr>"
    and "locks k lock = Some l" and "cvs k cv = Some c" and "cv \<noteq> NULL"
  shows "(curthread_with_lock l \<noteq> t \<longrightarrow> cv_broadcast cv lock k = Panic)
     \<and> (curthread_with_lock l = t \<longrightarrow>
          distinct (q c) \<and> (\<forall>w \<in> set (q c). (w, w) \<in> set (sleepers k))
          \<and> cv_broadcast cv lock k =
              Returned () (k\<lparr>cvs := (cvs k)(cv \<mapsto> c\<lparr>q := []\<rparr>),
                             sleepers := filter (\<lambda>(x, a). x \<notin> set (q c)) (sleepers k),
                             runqueue := runqueue k @ q c\<rparr>)
          \<and> repeat (length (q c)) (cv_signal cv lock) k =
              Returned () (k\<lparr>cvs := (cvs k)(cv \<mapsto> c\<lparr>q := []\<rparr>),
                             sleepers := filter (\<lambda>(x, a). x \<notin> set (q c)) (sleepers k),
                             runqueue := runqueue k @ q c\<rparr>)
          \<and> cv_signal cv lock
               (k\<lparr>cvs := (cvs k)(cv \<mapsto> c\<lparr>q := []\<rparr>),
                  sleepers := filter (\<lambda>(x, a). x \<notin> set (q c)) (sleepers k),
                  runqueue := runqueue k @ q c\<rparr>) =
              Returned () (k\<lparr>cvs := (cvs k)(cv \<mapsto> c\<lparr>q := []\<rparr>),
                             sleepers := filter (\<lambda>(x, a). x \<notin> set (q c)) (sleepers k),
                             runqueue := runqueue k @ q c\<rparr>))"
proof -
  have "cv_inv k'"
    by (rule exec_cv_inv [OF quiescent_cv_inv [OF assms(1)] assms(2)])
  then have inv: "cv_inv k" by (simp add: assms(3))
  have t: "curthread k = t" by (simp add: assms(3))
  note l = assms(4) and c = assms(5)
  let ?kb = "k\<lparr>cvs := (cvs k)(cv \<mapsto> c\<lparr>q := []\<rparr>),
               sleepers := filter (\<lambda>(x, a). x \<notin> set (q c)) (sleepers k),
               runqueue := runqueue k @ q c\<rparr>"
  have 1: "curthread_with_lock l \<noteq> t \<longrightarrow> cv_broadcast cv lock k = Panic"
    using l t assms(6) by (simp add: cv_broadcast_def lock_do_i_hold_def)
  have 2: "cv_broadcast cv lock k = Returned () ?kb" if own: "curthread_with_lock l = t"
    using cv_broadcast_loop_all [OF inv c refl] l t own assms(6)
    by (simp add: cv_broadcast_def lock_do_i_hold_def)
  have 3: "repeat (length (q c)) (cv_signal cv lock) k = Returned () ?kb"
    if own: "curthread_with_lock l = t"
    using repeat_cv_signal [OF inv l _ c, of "length (q c)"] own t by simp
  have 4: "cv_signal cv lock ?kb = Returned () ?kb" if own: "curthread_with_lock l = t"
    by (rule cv_signal_empty [where l = l and c = "c\<lparr>q := []\<rparr>"]) (simp_all add: l own t)
  from inv c have 5: "distinct (q c)" "\<forall>w \<in> set (q c). (w, w) \<in> set (sleepers k)"
    by (auto simp: cv_inv_def dest: queues_ok_distinct queues_ok_sleeping)
  from 1 2 3 4 5 show ?thesis by simp
qed

theorem cv_broadcast_all_witness:
  "quiescent k_cv0 \<and> exec three_waits k_cv0 = Some k_waiters
   \<and> cv_broadcast 200 100 k_waiters =
       Returned () (k_waiters\<lparr>cvs := [200 \<mapsto> \<lparr>cv_name = ''c'', q = []\<rparr>],
                              sleepers := [], runqueue := [1, 2, 3]\<rparr>)
   \<and> repeat (length [1, 2, 3::addr]) (cv_signal 200 100) k_waiters =
       Returned () (k_waiters\<lparr>cvs := [200 \<mapsto> \<lparr>cv_name = ''c'', q = []\<rparr>],
                              sleepers := [], runqueue := [1, 2, 3]\<rparr>)
   \<and> cv_signal 200 100 (k_waiters\<lparr>cvs := [200 \<mapsto> \<lparr>cv_name = ''c'', q = []\<rparr>],
                                     sleepers := [], runqueue := [1, 2, 3]\<rparr>) =
       Returned () (k_waiters\<lparr>cvs := [200 \<mapsto> \<lparr>cv_name = ''c'', q = []\<rparr>],
                              sleepers := [], runqueue := [1, 2, 3]\<rparr>)
   \<and> cv_broadcast 200 100 (k_waiters\<lparr>curthread := 5\<rparr>) = Panic"
proof -
  note z = quiescent_k_cv0 and e = exec_three_waits
  let ?c = "\<lparr>cv_name = ''c'', q = [1, 2, 3]\<rparr>"
  have n: "(200::addr) \<noteq> NULL" by (simp add: NULL_def)
  have l: "locks (k_waiters\<lparr>curthread := 4\<rparr>) 100 = Some l_held4"
    and c: "cvs (k_waiters\<lparr>curthread := 4\<rparr>) 200 = Some ?c"
    by (simp_all add: state_defs)
  note i1 = cv_broadcast_all [OF z e refl l c n]
  have l5: "locks (k_waiters\<lparr>curthread := 5\<rparr>) 100 = Some l_held4"
    and c5: "cvs (k_waiters\<lparr>curthread := 5\<rparr>) 200 = Some ?c"
    by (simp_all add: state_defs)
  note i2 = cv_broadcast_all [OF z e refl l5 c5 n]
  have a: "cv_broadcast 200 100 k_waiters =
       Returned () (k_waiters\<lparr>cvs := [200 \<mapsto> \<lparr>cv_name = ''c'', q = []\<rparr>],
                              sleepers := [], runqueue := [1, 2, 3]\<rparr>)
   \<and> repeat (length [1, 2, 3::addr]) (cv_signal 200 100) k_waiters =
       Returned () (k_waiters\<lparr>cvs := [200 \<mapsto> \<lparr>cv_name = ''c'', q = []\<rparr>],
                              sleepers := [], runqueue := [1, 2, 3]\<rparr>)
   \<and> cv_signal 200 100 (k_waiters\<lparr>cvs := [200 \<mapsto> \<lparr>cv_name = ''c'', q = []\<rparr>],
                                     sleepers := [], runqueue := [1, 2, 3]\<rparr>) =
       Returned () (k_waiters\<lparr>cvs := [200 \<mapsto> \<lparr>cv_name = ''c'', q = []\<rparr>],
                              sleepers := [], runqueue := [1, 2, 3]\<rparr>)"
    using i1 by (simp add: state_defs)
  have b: "cv_broadcast 200 100 (k_waiters\<lparr>curthread := 5\<rparr>) = Panic"
    using i2 by (simp add: state_defs)
  from a b z e show ?thesis by simp
qed

text \<open>
  Claim C10.  When the caller holds the lock and \<^verbatim>\<open>q_addtail\<close> reports an error,
  \<^verbatim>\<open>cv_wait\<close> stops on its assertion; its first segment never returns; and whenever
  it puts the caller to sleep, \<^verbatim>\<open>q_addtail\<close> has reported success, the caller is
  the new tail of the wait queue, and the caller sleeps on its own address, to continue
  with the \<^verbatim>\<open>lock_acquire\<close> of \<^verbatim>\<open>cv_wait\<close>.
\<close>

theorem cv_wait_enqueue_or_panic:
  "(locks k lock = Some l \<and> curthread_with_lock l = curthread k \<and> cvs k cv = Some c
      \<and> r \<noteq> 0 \<longrightarrow> cv_wait r cv lock k = Panic)
   \<and> cv_wait r cv lock k \<noteq> Returned u k'
   \<and> (cv_wait r cv lock k = Slept k' \<longrightarrow>
        r = 0
        \<and> (\<exists>c c'. cvs k cv = Some c \<and> cvs k' cv = Some c' \<and> q c' = q c @ [curthread k])
        \<and> (curthread k, curthread k) \<in> set (sleepers k')
        \<and> saved k' (curthread k) = Some (In_cv_wait lock))"
  by (auto simp: cv_wait_def lock_do_i_hold_def lock_release_def q_addtail_def thread_sleep_def
      thread_wakeup_def Let_def split: option.splits if_splits)

theorem cv_wait_enqueue_or_panic_witness:
  "cv_wait 4 200 100 k_held = Panic
   \<and> cv_wait 0 200 100 k_held =
       Slept (k_boot\<lparr>locks := [100 \<mapsto> l_free], cvs := [200 \<mapsto> \<lparr>cv_name = ''c'', q = [7]\<rparr>],
                     sleepers := [(7, 7)], saved := [7 \<mapsto> In_cv_wait 100]\<rparr>)
   \<and> (7, 7) \<in> set [(7::addr, 7::addr)]"
proof -
  have s: "cv_wait 0 200 100 k_held =
       Slept (k_boot\<lparr>locks := [100 \<mapsto> l_free], cvs := [200 \<mapsto> \<lparr>cv_name = ''c'', q = [7]\<rparr>],
                     sleepers := [(7, 7)], saved := [7 \<mapsto> In_cv_wait 100]\<rparr>)"
    by (simp add: cv_wait_def lock_do_i_hold_def lock_release_def q_addtail_def
        thread_sleep_def thread_wakeup_def sleeping_on_def
        k_held_def k_boot_def l_held_def l_free_def NULL_def)
  from cv_wait_enqueue_or_panic [of k_held 100 l_held 200 "\<lparr>cv_name = ''c'', q = []\<rparr>" 4]
  have p: "cv_wait 4 200 100 k_held = Panic"
    by (simp add: k_held_def k_boot_def l_held_def)
  from cv_wait_enqueue_or_panic [of k_held 100 l_held 200 _ 0 _
      "k_boot\<lparr>locks := [100 \<mapsto> l_free], cvs := [200 \<mapsto> \<lparr>cv_name = ''c'', q = [7]\<rparr>],
                     sleepers := [(7, 7)], saved := [7 \<mapsto> In_cv_wait 100]\<rparr>"] s
  have "(7, 7) \<in> set (sleepers (k_boot\<lparr>locks := [100 \<mapsto> l_free],
      cvs := [200 \<mapsto> \<lparr>cv_name = ''c'', q = [7]\<rparr>],
      sleepers := [(7, 7)], saved := [7 \<mapsto> In_cv_wait 100]\<rparr>))"
    by (simp add: k_held_def k_boot_def)
  with s p show ?thesis by simp
qed

subsection \<open>Interrupt context\<close>

text \<open>
  Claim C9.  With the in-interrupt flag set, \<^verbatim>\<open>P\<close> stops on its assertion for every
  argument, before it reads the semaphore.  \<^verbatim>\<open>lock_acquire\<close> and \<^verbatim>\<open>cv_wait\<close>
  never read the flag: on a free lock \<^verbatim>\<open>lock_acquire\<close> returns with the lock taken,
  and \<^verbatim>\<open>cv_wait\<close> has enqueued the caller and released the lock when it reaches
  \<^verbatim>\<open>thread_sleep\<close> (what \<^verbatim>\<open>thread_sleep\<close> does with the flag is not in
  synch.c).
\<close>

theorem blocking_in_interrupt:
  "(\<forall>sem. P sem (k_free\<lparr>in_interrupt := 1\<rparr>) = Panic)
   \<and> lock_acquire 100 (k_free\<lparr>in_interrupt := 1\<rparr>) =
       Returned () (k_boot\<lparr>in_interrupt := 1, locks := [100 \<mapsto> l_held]\<rparr>)
   \<and> cv_wait 0 200 100 (k_held\<lparr>in_interrupt := 1\<rparr>) =
       Slept (k_boot\<lparr>in_interrupt := 1, locks := [100 \<mapsto> l_free],
                     cvs := [200 \<mapsto> \<lparr>cv_name = ''c'', q = [7]\<rparr>],
                     sleepers := [(7, 7)], saved := [7 \<mapsto> In_cv_wait 100]\<rparr>)"
  by (simp add: P_def lock_acquire_def lock_acquire_loop_def
      cv_wait_def lock_do_i_hold_def lock_release_def q_addtail_def
      thread_sleep_def thread_wakeup_def sleeping_on_def
      k_free_def k_held_def k_boot_def l_held_def l_free_def NULL_def)

end
